theory Spec2Isabelle
  imports Main "HOL-Library.Sublist"
begin

section \<open>Characters and strings\<close>

text \<open>
  The program reads its input with \<^verbatim>\<open>readlines()\<close> and works on Python \<^verbatim>\<open>str\<close> values,
  sequences of code points. The model takes a \<^typ>\<open>char\<close> as one code point and so covers
  the code points below 256; \<open>code c\<close> is the number of the code point.
\<close>

definition code :: "char \<Rightarrow> nat" where
  "code c = of_char c"

text \<open>
  \<^verbatim>\<open>str.isspace\<close>, which is also what \<^verbatim>\<open>\s\<close>, \<^verbatim>\<open>strip()\<close> and \<^verbatim>\<open>rstrip()\<close> use:
  below 256 the white space is TAB, LF, VT, FF, CR, the separators 28 to 31, the blank,
  NEL (133) and the no-break space (160).
\<close>

definition isspace :: "char \<Rightarrow> bool" where
  "isspace c = (code c \<in> {9, 10, 11, 12, 13, 28, 29, 30, 31, 32, 133, 160})"

text \<open>\<^verbatim>\<open>\d\<close>: below 256 the decimal digits are \<^verbatim>\<open>0\<close> to \<^verbatim>\<open>9\<close>.\<close>

definition is_digit :: "char \<Rightarrow> bool" where
  "is_digit c = (48 \<le> code c \<and> code c \<le> 57)"

text \<open>\<^verbatim>\<open>[A-Z]\<close>, \<^verbatim>\<open>[a-z]\<close>, \<^verbatim>\<open>[A-Z0-9 ]\<close>, \<^verbatim>\<open>.\<close> (anything but a line feed), \<^verbatim>\<open>["]\<close> and \<^verbatim>\<open>[^"]\<close>.\<close>

definition is_upper :: "char \<Rightarrow> bool" where
  "is_upper c = (65 \<le> code c \<and> code c \<le> 90)"

definition is_lower :: "char \<Rightarrow> bool" where
  "is_lower c = (97 \<le> code c \<and> code c \<le> 122)"

definition is_caps :: "char \<Rightarrow> bool" where
  "is_caps c = (is_upper c \<or> is_digit c \<or> code c = 32)"

definition not_newline :: "char \<Rightarrow> bool" where
  "not_newline c = (code c \<noteq> 10)"

definition is_quote :: "char \<Rightarrow> bool" where
  "is_quote c = (code c = 34)"

definition not_quote :: "char \<Rightarrow> bool" where
  "not_quote c = (code c \<noteq> 34)"

text \<open>\<^verbatim>\<open>s.lstrip()\<close>, \<^verbatim>\<open>s.rstrip()\<close> and \<^verbatim>\<open>s.strip()\<close>.\<close>

definition lstrip :: "string \<Rightarrow> string" where
  "lstrip s = dropWhile isspace s"

definition rstrip :: "string \<Rightarrow> string" where
  "rstrip s = rev (dropWhile isspace (rev s))"

definition strip :: "string \<Rightarrow> string" where
  "strip s = rstrip (lstrip s)"

text \<open>\<^verbatim>\<open>sub in s\<close> on strings: \<open>sub\<close> occurs in \<open>s\<close> as a contiguous run.\<close>

fun contains :: "string \<Rightarrow> string \<Rightarrow> bool" where
  "contains sub [] = (sub = [])"
| "contains sub (c # cs) = (prefix sub (c # cs) \<or> contains sub cs)"

text \<open>
  \<^verbatim>\<open>s.split("...")\<close>: the pieces of \<open>s\<close> between the occurrences of three dots, found
  from the left without overlap; \<open>cur\<close> is the piece being collected.
\<close>

fun split_ellipsis :: "string \<Rightarrow> string \<Rightarrow> string list" where
  "split_ellipsis cur [] = [cur]"
| "split_ellipsis cur (c # cs) =
     (if prefix ''...'' (c # cs) then cur # split_ellipsis [] (drop 2 cs)
      else split_ellipsis (cur @ [c]) cs)"

text \<open>\<^verbatim>\<open>re.sub(r'\.+', '', s)\<close>: every run of dots is replaced by nothing, so every dot goes.\<close>

definition remove_dots :: "string \<Rightarrow> string" where
  "remove_dots s = filter (\<lambda>c. code c \<noteq> 46) s"

text \<open>
  \<^verbatim>\<open>s.lower()\<close> on code points below 256: the ASCII capitals and the Latin-1 capitals
  192 to 222 (without the multiplication sign 215) move up by 32.
\<close>

definition lower_char :: "char \<Rightarrow> char" where
  "lower_char c =
     (let n = code c in
      if (65 \<le> n \<and> n \<le> 90) \<or> (192 \<le> n \<and> n \<le> 222 \<and> n \<noteq> 215) then char_of (n + 32) else c)"

definition lower :: "string \<Rightarrow> string" where
  "lower s = map lower_char s"

section \<open>Regular expressions\<close>

text \<open>
  Python's \<^verbatim>\<open>re\<close> is a backtracking matcher: alternatives are tried from the left, a greedy
  repetition tries the longest run first, a lazy one the shortest, and the first way that
  lets the rest of the pattern succeed is the match. Each construct below takes the text
  still to be read and a continuation for the rest of the pattern, and returns the first
  success in that order. All repetitions in the program's patterns are over one character
  class.
\<close>

definition orelse :: "'r option \<Rightarrow> 'r option \<Rightarrow> 'r option" where
  "orelse a b = (case a of Some r \<Rightarrow> Some r | None \<Rightarrow> b)"

text \<open>A literal string.\<close>

definition lit :: "string \<Rightarrow> string \<Rightarrow> (string \<Rightarrow> 'r option) \<Rightarrow> 'r option" where
  "lit p s k = (if prefix p s then k (drop (length p) s) else None)"

text \<open>One character of a class.\<close>

fun cls :: "(char \<Rightarrow> bool) \<Rightarrow> string \<Rightarrow> (char \<Rightarrow> string \<Rightarrow> 'r option) \<Rightarrow> 'r option" where
  "cls p [] k = None"
| "cls p (c # cs) k = (if p c then k c cs else None)"

text \<open>Greedy \<^verbatim>\<open>p*\<close>: \<open>acc\<close> is the run read so far; the longer run is tried first.\<close>

fun star :: "(char \<Rightarrow> bool) \<Rightarrow> string \<Rightarrow> string \<Rightarrow> (string \<Rightarrow> string \<Rightarrow> 'r option) \<Rightarrow> 'r option" where
  "star p acc [] k = k acc []"
| "star p acc (c # cs) k =
     (if p c then orelse (star p (acc @ [c]) cs k) (k acc (c # cs)) else k acc (c # cs))"

text \<open>Greedy \<^verbatim>\<open>p+\<close>.\<close>

definition plus :: "(char \<Rightarrow> bool) \<Rightarrow> string \<Rightarrow> (string \<Rightarrow> string \<Rightarrow> 'r option) \<Rightarrow> 'r option" where
  "plus p s k = cls p s (\<lambda>c cs. star p [c] cs k)"

text \<open>Lazy \<^verbatim>\<open>p+?\<close>: the shorter run is tried first.\<close>

fun plus_lazy :: "(char \<Rightarrow> bool) \<Rightarrow> string \<Rightarrow> string \<Rightarrow> (string \<Rightarrow> string \<Rightarrow> 'r option) \<Rightarrow> 'r option" where
  "plus_lazy p acc [] k = None"
| "plus_lazy p acc (c # cs) k =
     (if p c then orelse (k (acc @ [c]) cs) (plus_lazy p (acc @ [c]) cs k) else None)"

text \<open>\<^verbatim>\<open>$\<close> without MULTILINE: the end of the text, or just before a line feed that ends it.\<close>

definition eol :: "string \<Rightarrow> bool" where
  "eol s = (s = [] \<or> s = [CHR 0x0A])"

definition at_eol :: "string \<Rightarrow> 'r \<Rightarrow> 'r option" where
  "at_eol s r = (if eol s then Some r else None)"

subsection \<open>The patterns of \<^verbatim>\<open>parse_checklist\<close>\<close>

text \<open>\<^verbatim>\<open>^#([A-Z][A-Z0-9 ]+)$\<close>, returning group 1.\<close>

definition section_pattern :: "string \<Rightarrow> string option" where
  "section_pattern line =
     lit ''#'' line (\<lambda>r.
       cls is_upper r (\<lambda>c r1.
         plus is_caps r1 (\<lambda>g r2. at_eol r2 (c # g))))"

text \<open>\<^verbatim>\<open>^##([A-Z].+)$\<close>, returning group 1.\<close>

definition subsection_pattern :: "string \<Rightarrow> string option" where
  "subsection_pattern line =
     lit ''##'' line (\<lambda>r.
       cls is_upper r (\<lambda>c r1.
         plus not_newline r1 (\<lambda>g r2. at_eol r2 (c # g))))"

text \<open>\<^verbatim>\<open>^###(.+)$\<close>, returning group 1.\<close>

definition checklist_pattern :: "string \<Rightarrow> string option" where
  "checklist_pattern line =
     lit ''###'' line (\<lambda>r. plus not_newline r (\<lambda>g r2. at_eol r2 g))"

text \<open>\<^verbatim>\<open>^PFD Alerts Window: ["]([^"]+)["]$\<close>, returning group 1.\<close>

definition pfd_alert_pattern :: "string \<Rightarrow> string option" where
  "pfd_alert_pattern line =
     lit ''PFD Alerts Window: '' line (\<lambda>r.
       cls is_quote r (\<lambda>_ r1.
         plus not_quote r1 (\<lambda>g r2.
           cls is_quote r2 (\<lambda>_ r3. at_eol r3 g))))"

text \<open>
  \<^verbatim>\<open>^([A-Z][A-Z0-9 ]+)(?:\s+Caution|Advisory)?$\<close>, returning group 1. The optional group
  holds two alternatives, \<^verbatim>\<open>\s+Caution\<close> and \<^verbatim>\<open>Advisory\<close>; it is tried before its absence.
\<close>

definition cas_message_line_pattern :: "string \<Rightarrow> string option" where
  "cas_message_line_pattern line =
     cls is_upper line (\<lambda>c r.
       plus is_caps r (\<lambda>g r1.
         orelse
           (orelse (plus isspace r1 (\<lambda>_ r2. lit ''Caution'' r2 (\<lambda>r3. at_eol r3 (c # g))))
                   (lit ''Advisory'' r1 (\<lambda>r3. at_eol r3 (c # g))))
           (at_eol r1 (c # g))))"

text \<open>
  \<^verbatim>\<open>^(\s*)(?:(\d+)\.|\((\d+)\)|([a-z])\.)\s+(.+?)(?:\.\.\.\s*(.+))?$\<close> with its six groups:
  \<open>indent\<close>, \<open>num1\<close>, \<open>num2\<close>, \<open>letter\<close>, \<open>content\<close> and \<open>action_grp\<close>; a group that
  took no part in the match is \<open>None\<close>.
\<close>

record item_groups =
  indent :: string
  num1 :: "string option"
  num2 :: "string option"
  letter :: "string option"
  content :: string
  action_grp :: "string option"

text \<open>The part after the numbering: \<^verbatim>\<open>\s+(.+?)(?:\.\.\.\s*(.+))?$\<close>.\<close>

definition item_tail ::
  "string \<Rightarrow> string option \<Rightarrow> string option \<Rightarrow> string option \<Rightarrow> string \<Rightarrow> item_groups option" where
  "item_tail ind n1 n2 l r =
     plus isspace r (\<lambda>_ r1.
       plus_lazy not_newline [] r1 (\<lambda>cont r2.
         orelse
           (lit ''...'' r2 (\<lambda>r3.
              star isspace [] r3 (\<lambda>_ r4.
                plus not_newline r4 (\<lambda>a r5.
                  at_eol r5 \<lparr>indent = ind, num1 = n1, num2 = n2, letter = l,
                              content = cont, action_grp = Some a\<rparr>))))
           (at_eol r2 \<lparr>indent = ind, num1 = n1, num2 = n2, letter = l,
                       content = cont, action_grp = None\<rparr>)))"

definition item_pattern :: "string \<Rightarrow> item_groups option" where
  "item_pattern line =
     star isspace [] line (\<lambda>ind r.
       orelse
         (plus is_digit r (\<lambda>n1 r1. lit ''.'' r1 (\<lambda>r2. item_tail ind (Some n1) None None r2)))
         (orelse
            (lit ''('' r (\<lambda>r1.
               plus is_digit r1 (\<lambda>n2 r2.
                 lit '')'' r2 (\<lambda>r3. item_tail ind None (Some n2) None r3))))
            (cls is_lower r (\<lambda>l r1. lit ''.'' r1 (\<lambda>r2. item_tail ind None None (Some [l]) r2)))))"

section \<open>The data model\<close>

text \<open>
  The dataclasses \<^verbatim>\<open>ChecklistStep\<close> and \<^verbatim>\<open>Checklist\<close>. A step holds its sub-steps, so it
  is a datatype; the fields \<^verbatim>\<open>id\<close>, \<^verbatim>\<open>section\<close> and \<^verbatim>\<open>subsection\<close> are renamed, the
  others keep their names. An identifier comes from \<^verbatim>\<open>uuid.uuid4()\<close>; the model draws it
  from a counter kept in the scan state, so that two identifiers never coincide.
\<close>

datatype ChecklistStep =
  ChecklistStep (step_id: nat) (instruction: string) (action: string) (is_conditional: bool)
    (indent_level: int) (step_number: "string option") (sub_steps: "ChecklistStep list")

record Checklist =
  cl_id :: nat
  title :: string
  cl_section :: string
  cl_subsection :: "string option"
  cas :: "string option"
  cas_type :: "string option"
  cas_description :: "string option"
  alert_message :: "string option"
  steps :: "ChecklistStep list"

text \<open>Python's truth value of an optional string: \<^verbatim>\<open>None\<close> and the empty string are false.\<close>

definition truthy :: "string option \<Rightarrow> bool" where
  "truthy x = (case x of None \<Rightarrow> False | Some s \<Rightarrow> s \<noteq> [])"

section \<open>The hierarchy builder\<close>

text \<open>
  \<^verbatim>\<open>find_parent_and_add_step\<close> appends the new step under the first step it meets whose
  level is one less than the target, looking at a step before its sub-steps and at the
  sub-steps from the last to the first. The source mutates the tree and returns whether it
  did; the model returns the changed step, or \<open>None\<close> for \<^verbatim>\<open>False\<close>.
  \<open>add_to_most_recent\<close> is the loop \<^verbatim>\<open>for i in range(len(xs) - 1, -1, -1)\<close> over a list of
  steps, which stops at the first step that took the new one.
\<close>

fun find_parent_and_add_step :: "ChecklistStep \<Rightarrow> ChecklistStep \<Rightarrow> int \<Rightarrow> ChecklistStep option"
  and add_to_most_recent :: "ChecklistStep list \<Rightarrow> ChecklistStep \<Rightarrow> int \<Rightarrow> ChecklistStep list option"
where
  "find_parent_and_add_step (ChecklistStep u ins act c lvl num subs) new_step target_indent =
     (if lvl = target_indent - 1
      then Some (ChecklistStep u ins act c lvl num (subs @ [new_step]))
      else (case add_to_most_recent subs new_step target_indent of
              Some subs' \<Rightarrow> Some (ChecklistStep u ins act c lvl num subs')
            | None \<Rightarrow> None))"
| "add_to_most_recent [] new_step target_indent = None"
| "add_to_most_recent (s # ss) new_step target_indent =
     (case add_to_most_recent ss new_step target_indent of
        Some ss' \<Rightarrow> Some (s # ss')
      | None \<Rightarrow>
          (case find_parent_and_add_step s new_step target_indent of
             Some s' \<Rightarrow> Some (s' # ss)
           | None \<Rightarrow> None))"

text \<open>\<^verbatim>\<open>add_step_to_hierarchy\<close>, returning the checklist with the step added.\<close>

definition add_step_to_hierarchy :: "Checklist \<Rightarrow> ChecklistStep \<Rightarrow> int \<Rightarrow> Checklist" where
  "add_step_to_hierarchy checklist new_step lvl =
     (if lvl = 0 then checklist\<lparr>steps := steps checklist @ [new_step]\<rparr>
      else if steps checklist = [] then checklist\<lparr>steps := steps checklist @ [new_step]\<rparr>
      else (case add_to_most_recent (steps checklist) new_step lvl of
              Some steps' \<Rightarrow> checklist\<lparr>steps := steps'\<rparr>
            | None \<Rightarrow> checklist\<lparr>steps := steps checklist @ [new_step]\<rparr>))"

section \<open>The scan\<close>

text \<open>The local variables of \<^verbatim>\<open>parse_checklist\<close> that live across lines.\<close>

record scan_state =
  checklists :: "Checklist list"
  current_checklist :: "Checklist option"
  current_section :: "string option"
  current_subsection :: "string option"
  pending_cas :: "string option"
  pending_cas_type :: "string option"
  pending_cas_description :: "string option"
  pending_pfd_alert :: "string option"
  line_count :: nat
  next_uuid :: nat

definition initial_state :: scan_state where
  "initial_state =
     \<lparr>checklists = [], current_checklist = None, current_section = None,
      current_subsection = None, pending_cas = None, pending_cas_type = None,
      pending_cas_description = None, pending_pfd_alert = None, line_count = 0,
      next_uuid = 0\<rparr>"

text \<open>
  \<^verbatim>\<open>if current_checklist and current_checklist.steps: checklists.append(current_checklist)\<close>,
  which the source does at a title line and after the loop.
\<close>

definition append_current :: "scan_state \<Rightarrow> Checklist list" where
  "append_current st =
     (case current_checklist st of
        None \<Rightarrow> checklists st
      | Some cl \<Rightarrow> if steps cl \<noteq> [] then checklists st @ [cl] else checklists st)"

text \<open>A checklist title line, with group 1 of the match.\<close>

definition title_handler :: "string \<Rightarrow> scan_state \<Rightarrow> scan_state" where
  "title_handler g st =
     (let new_checklist =
            \<lparr>cl_id = next_uuid st, title = strip g,
             cl_section = (case current_section st of None \<Rightarrow> [] | Some s \<Rightarrow> s),
             cl_subsection = current_subsection st,
             cas = pending_cas st, cas_type = pending_cas_type st,
             cas_description = pending_cas_description st,
             alert_message = pending_pfd_alert st, steps = []\<rparr>;
          st1 = st\<lparr>checklists := append_current st, current_checklist := Some new_checklist,
                   next_uuid := next_uuid st + 1\<rparr>
      in if truthy (pending_cas st) \<or> truthy (pending_pfd_alert st)
         then st1\<lparr>pending_cas := None, pending_cas_type := None,
                   pending_cas_description := None, pending_pfd_alert := None\<rparr>
         else st1)"

text \<open>A PFD alert line, with group 1 of the match.\<close>

definition pfd_handler :: "string \<Rightarrow> scan_state \<Rightarrow> scan_state" where
  "pfd_handler g st =
     (case current_checklist st of
        Some cl \<Rightarrow> st\<lparr>current_checklist := Some (cl\<lparr>alert_message := Some (strip g)\<rparr>),
                      pending_pfd_alert := None\<rparr>
      | None \<Rightarrow> st\<lparr>pending_pfd_alert := Some (strip g)\<rparr>)"

text \<open>
  A CAS message line: \<open>line\<close> is the line, \<open>g\<close> group 1 of the match and \<open>i\<close> the index of
  the next line. The type is read from the line; only when the line names none is the next
  line looked at, and taken (\<open>i + 1\<close>) when it repeats the name or names a type. The result
  is the index at which the scan goes on, and the new state.
\<close>

definition cas_handler :: "string list \<Rightarrow> nat \<Rightarrow> string \<Rightarrow> string \<Rightarrow> scan_state \<Rightarrow> nat \<times> scan_state" where
  "cas_handler lines i line g st =
     (let name = strip g;
          (ctype, i') =
            (if contains ''Caution'' line then (Some ''Caution'', i)
             else if contains ''Advisory'' line then (Some ''Advisory'', i)
             else if i < length lines then
               (let next_line = strip (lines ! i) in
                if next_line = name then (pending_cas_type st, i + 1)
                else if contains ''Caution'' next_line then (Some ''Caution'', i + 1)
                else if contains ''Advisory'' next_line then (Some ''Advisory'', i + 1)
                else (pending_cas_type st, i))
             else (pending_cas_type st, i))
      in (case current_checklist st of
            Some cl \<Rightarrow>
              (i', st\<lparr>current_checklist := Some (cl\<lparr>cas := Some name, cas_type := ctype\<rparr>),
                      pending_cas := None, pending_cas_type := None\<rparr>)
          | None \<Rightarrow> (i', st\<lparr>pending_cas := Some name, pending_cas_type := ctype\<rparr>)))"

subsection \<open>Continuation lines\<close>

text \<open>The test that ends the look-ahead: the line matches one of the six patterns.\<close>

definition starts_new_pattern :: "string \<Rightarrow> bool" where
  "starts_new_pattern next_line =
     (section_pattern next_line \<noteq> None \<or> subsection_pattern next_line \<noteq> None \<or>
      checklist_pattern next_line \<noteq> None \<or> item_pattern next_line \<noteq> None \<or>
      cas_message_line_pattern next_line \<noteq> None \<or> pfd_alert_pattern next_line \<noteq> None)"

text \<open>What one continuation line does to \<^verbatim>\<open>instruction\<close> and \<^verbatim>\<open>action\<close>.\<close>

definition merge_line :: "string \<Rightarrow> string \<Rightarrow> string \<Rightarrow> string \<times> string" where
  "merge_line next_line ins act =
     (if contains ''...'' next_line then
        (let parts = split_ellipsis [] next_line in
         if length parts > 1 then
           (if ins \<noteq> [] \<and> \<not> contains ''...'' ins then ins @ '' '' @ strip (parts ! 0) else ins,
            if act \<noteq> [] then act @ '' '' @ strip (parts ! 1) else strip (parts ! 1))
         else (ins, act))
      else (ins @ '' '' @ strip next_line, act))"

text \<open>
  The look-ahead \<^verbatim>\<open>while j < len(lines)\<close> of the step branch. It returns \<open>j\<close>, \<open>i\<close>,
  \<^verbatim>\<open>instruction\<close> and \<^verbatim>\<open>action\<close> as they are when the loop ends. An empty line moves \<open>j\<close>
  only; a merged line moves \<open>j\<close> and \<open>i\<close>.
\<close>

function merge_continuations ::
  "string list \<Rightarrow> nat \<Rightarrow> nat \<Rightarrow> string \<Rightarrow> string \<Rightarrow> nat \<times> nat \<times> string \<times> string" where
  "merge_continuations lines j i ins act =
     (if j < length lines then
        (let next_line = rstrip (lines ! j) in
         if next_line = [] then merge_continuations lines (j + 1) i ins act
         else if starts_new_pattern next_line then (j, i, ins, act)
         else (case merge_line next_line ins act of
                 (ins', act') \<Rightarrow> merge_continuations lines (j + 1) (i + 1) ins' act'))
      else (j, i, ins, act))"
  by pat_completeness auto

termination
  by (relation "measure (\<lambda>(lines, j, i, ins, act). length lines - j)") auto

subsection \<open>Step lines\<close>

text \<open>
  The step branch up to the construction of \<^verbatim>\<open>new_step\<close>: \<open>i\<close> is the index of the next
  line, \<open>m\<close> the groups of the match and \<open>uid\<close> the identifier drawn for the step. The result
  is the value of \<open>i\<close> after the look-ahead, and the new step.
\<close>

definition build_step :: "string list \<Rightarrow> nat \<Rightarrow> item_groups \<Rightarrow> nat \<Rightarrow> nat \<times> ChecklistStep" where
  "build_step lines i m uid =
     (let lvl0 = (if indent m \<noteq> [] then int (length (indent m) div 2) else 0);
          ins0 = strip (content m);
          act0 = (case action_grp m of None \<Rightarrow> [] | Some a \<Rightarrow> if a \<noteq> [] then strip a else [])
      in (case merge_continuations lines i i ins0 act0 of
            (j, i', ins, act1) \<Rightarrow>
              (let act = (if act1 \<noteq> [] then strip (remove_dots act1) else act1);
                   cond = (prefix ''if'' (lower ins) \<or> prefix ''when'' (lower ins) \<or>
                           prefix ''verify'' (lower ins));
                   (num, lvl) =
                     (if truthy (num1 m) then (num1 m, 0)
                      else if truthy (num2 m)
                        then (map_option (\<lambda>n. ''('' @ n @ '')'') (num2 m), 2)
                      else if truthy (letter m) then (letter m, 1)
                      else (None, lvl0))
               in (i', ChecklistStep uid ins act cond lvl num []))))"

definition step_handler ::
  "string list \<Rightarrow> nat \<Rightarrow> item_groups \<Rightarrow> Checklist \<Rightarrow> scan_state \<Rightarrow> nat \<times> scan_state" where
  "step_handler lines i m cl st =
     (case build_step lines i m (next_uuid st) of
        (i', new_step) \<Rightarrow>
          (i', st\<lparr>current_checklist :=
                     Some (add_step_to_hierarchy cl new_step (indent_level new_step)),
                  next_uuid := next_uuid st + 1\<rparr>))"

subsection \<open>The main loop\<close>

text \<open>
  The test of the CAS branch, \<^verbatim>\<open>cas_match and (not current_checklist or not
  item_pattern.match(line))\<close>: group 1 of the match when the line is taken as a CAS message.
\<close>

definition cas_classified :: "scan_state \<Rightarrow> string \<Rightarrow> string option" where
  "cas_classified st line =
     (case cas_message_line_pattern line of
        None \<Rightarrow> None
      | Some g \<Rightarrow> if current_checklist st = None \<or> item_pattern line = None then Some g else None)"

text \<open>
  One turn of \<^verbatim>\<open>while i < len(lines)\<close>, for \<open>i0 < length lines\<close>: the index of the line the
  next turn reads, and the new state. No statement of the body can raise, so the
  \<^verbatim>\<open>except\<close> branch is never taken. A line that no branch takes changes nothing but the
  count of lines.
\<close>

definition scan_line :: "string list \<Rightarrow> nat \<Rightarrow> scan_state \<Rightarrow> nat \<times> scan_state" where
  "scan_line lines i0 st0 =
     (let line = rstrip (lines ! i0);
          st = st0\<lparr>line_count := line_count st0 + 1\<rparr>;
          i = i0 + 1
      in if line = [] then (i, st)
         else (case section_pattern line of
           Some g \<Rightarrow> (i, st\<lparr>current_section := Some g\<rparr>)
         | None \<Rightarrow> (case subsection_pattern line of
           Some g \<Rightarrow> (i, st\<lparr>current_subsection := Some g\<rparr>)
         | None \<Rightarrow> (case checklist_pattern line of
           Some g \<Rightarrow> (i, title_handler g st)
         | None \<Rightarrow> (case pfd_alert_pattern line of
           Some g \<Rightarrow> (i, pfd_handler g st)
         | None \<Rightarrow> (case cas_classified st line of
           Some g \<Rightarrow> cas_handler lines i line g st
         | None \<Rightarrow> (case item_pattern line of
           None \<Rightarrow> (i, st)
         | Some m \<Rightarrow> (case current_checklist st of
             None \<Rightarrow> (i, st)
           | Some cl \<Rightarrow> step_handler lines i m cl st))))))))"

declare merge_continuations.simps [simp del]

text \<open>
  The loop \<^verbatim>\<open>while i < len(lines)\<close>. Every turn moves \<open>i\<close> forward; that it ends is
  proved below, once the handlers are known not to move \<open>i\<close> back.
\<close>

function parse_loop :: "string list \<Rightarrow> nat \<Rightarrow> scan_state \<Rightarrow> scan_state" where
  "parse_loop lines i st =
     (if i < length lines then
        (case scan_line lines i st of (i', st') \<Rightarrow> parse_loop lines i' st')
      else st)"
  by pat_completeness auto

text \<open>
  \<^verbatim>\<open>parse_checklist\<close> from the lines read to the list \<^verbatim>\<open>checklists\<close> that is validated and
  written: the loop from index 0 in the initial state, then the last checklist.
\<close>

definition parse_checklist :: "string list \<Rightarrow> Checklist list" where
  "parse_checklist lines = append_current (parse_loop lines 0 initial_state)"

section \<open>The validator\<close>

text \<open>
  Each \<^verbatim>\<open>logger.warning\<close> of the validator goes with \<^verbatim>\<open>issues_found += 1\<close>. The warnings
  are values: the step number and the checklist title that the message prints.
\<close>

datatype warning =
    MissingTitle nat
  | MissingSection string
  | NoSteps string
  | MissingInstruction "string option" string
  | InconsistentIndentation "string option" string

text \<open>
  \<^verbatim>\<open>validate_steps\<close>: the warnings it logs, in the order it logs them. \<open>validate_step\<close> is
  the body of its loop for one step.
\<close>

fun validate_step :: "ChecklistStep \<Rightarrow> string \<Rightarrow> warning list"
  and validate_steps :: "ChecklistStep list \<Rightarrow> string \<Rightarrow> warning list"
where
  "validate_step (ChecklistStep u ins act c lvl num subs) checklist_title =
     (if ins = [] then [MissingInstruction num checklist_title] else []) @
     (if subs \<noteq> [] \<and> list_ex (\<lambda>sub. indent_level sub \<le> lvl) subs
      then [InconsistentIndentation num checklist_title] else []) @
     (if subs \<noteq> [] then validate_steps subs checklist_title else [])"
| "validate_steps [] checklist_title = []"
| "validate_steps (s # ss) checklist_title =
     validate_step s checklist_title @ validate_steps ss checklist_title"

text \<open>The number \<^verbatim>\<open>validate_steps\<close> returns: one for each warning.\<close>

definition validate_steps_count :: "ChecklistStep list \<Rightarrow> string \<Rightarrow> nat" where
  "validate_steps_count sts checklist_title = length (validate_steps sts checklist_title)"

text \<open>\<^verbatim>\<open>validate_checklists\<close>: the warnings logged for a list of checklists.\<close>

definition validate_checklist :: "Checklist \<Rightarrow> warning list" where
  "validate_checklist checklist =
     (if title checklist = [] then [MissingTitle (cl_id checklist)] else []) @
     (if cl_section checklist = [] then [MissingSection (title checklist)] else []) @
     (if steps checklist = [] then [NoSteps (title checklist)] else []) @
     validate_steps (steps checklist) (title checklist)"

definition validate_checklists :: "Checklist list \<Rightarrow> warning list" where
  "validate_checklists found = concat (map validate_checklist found)"

section \<open>Notions used to state the properties\<close>

text \<open>
  Nothing below is part of the program. These are the predicates on scan states that the
  loop keeps, the list of all steps of a tree, and a name for one part of a pattern.
\<close>

text \<open>No CAS description is held anywhere in the scan state.\<close>

definition no_description :: "scan_state \<Rightarrow> bool" where
  "no_description st =
     (pending_cas_description st = None \<and>
      list_all (\<lambda>cl. cas_description cl = None) (checklists st) \<and>
      (case current_checklist st of None \<Rightarrow> True | Some cl \<Rightarrow> cas_description cl = None))"

text \<open>Every step of a list of steps and below it, a step before its sub-steps.\<close>

fun steps_below :: "ChecklistStep \<Rightarrow> ChecklistStep list"
  and all_steps :: "ChecklistStep list \<Rightarrow> ChecklistStep list"
where
  "steps_below (ChecklistStep u ins act c lvl num subs) =
     ChecklistStep u ins act c lvl num subs # all_steps subs"
| "all_steps [] = []"
| "all_steps (s # ss) = steps_below s @ all_steps ss"

text \<open>The hierarchy invariant at one step: each child is exactly one level deeper.\<close>

definition children_one_deeper :: "ChecklistStep \<Rightarrow> bool" where
  "children_one_deeper s = list_all (\<lambda>ch. indent_level ch = indent_level s + 1) (sub_steps s)"

text \<open>The hierarchy invariant at every step of a list of steps and below.\<close>

definition hierarchy_ok :: "ChecklistStep list \<Rightarrow> bool" where
  "hierarchy_ok sts = list_all children_one_deeper (all_steps sts)"

text \<open>The hierarchy invariant for every checklist of the scan state.\<close>

definition hierarchy_state :: "scan_state \<Rightarrow> bool" where
  "hierarchy_state st =
     (list_all (\<lambda>cl. hierarchy_ok (steps cl)) (checklists st) \<and>
      (case current_checklist st of None \<Rightarrow> True | Some cl \<Rightarrow> hierarchy_ok (steps cl)))"

text \<open>Every checklist already put into \<^verbatim>\<open>checklists\<close> has a step.\<close>

definition completed_have_steps :: "scan_state \<Rightarrow> bool" where
  "completed_have_steps st = list_all (\<lambda>cl. steps cl \<noteq> []) (checklists st)"

text \<open>What \<^verbatim>\<open>validate_steps\<close> logs for one step, apart from what it logs for the sub-steps.\<close>

definition step_warnings :: "string \<Rightarrow> ChecklistStep \<Rightarrow> warning list" where
  "step_warnings checklist_title s =
     (if instruction s = [] then [MissingInstruction (step_number s) checklist_title] else []) @
     (if list_ex (\<lambda>sub. indent_level sub \<le> indent_level s) (sub_steps s)
      then [InconsistentIndentation (step_number s) checklist_title] else [])"

text \<open>The numbering part of the step pattern, after the leading white space.\<close>

definition item_numbering :: "string \<Rightarrow> string \<Rightarrow> item_groups option" where
  "item_numbering ind r =
     orelse
       (plus is_digit r (\<lambda>n1 r1. lit ''.'' r1 (\<lambda>r2. item_tail ind (Some n1) None None r2)))
       (orelse
          (lit ''('' r (\<lambda>r1.
             plus is_digit r1 (\<lambda>n2 r2.
               lit '')'' r2 (\<lambda>r3. item_tail ind None (Some n2) None r3))))
          (cls is_lower r (\<lambda>l r1. lit ''.'' r1 (\<lambda>r2. item_tail ind None None (Some [l]) r2))))"

section \<open>The loop ends\<close>

lemma merge_continuations_index:
  "merge_continuations lines j i ins act = (j', i', ins', act') \<Longrightarrow> i \<le> i'"
proof (induction lines j i ins act rule: merge_continuations.induct)
  case (1 lines j i ins act)
  show ?case
  proof (cases "j < length lines")
    case False
    with "1.prems" show ?thesis by (simp add: merge_continuations.simps)
  next
    case True
    note in_range = this
    show ?thesis
    proof (cases "rstrip (lines ! j) = []")
      case True
      with in_range "1.prems" "1.IH"(1) show ?thesis by (simp add: merge_continuations.simps [of lines j])
    next
      case False
      note non_blank = this
      show ?thesis
      proof (cases "starts_new_pattern (rstrip (lines ! j))")
        case True
        with in_range non_blank "1.prems" show ?thesis by (simp add: merge_continuations.simps [of lines j])
      next
        case False
        obtain a b where ab: "merge_line (rstrip (lines ! j)) ins act = (a, b)"
          by (cases "merge_line (rstrip (lines ! j)) ins act")
        from in_range non_blank False ab "1.prems"
        have "merge_continuations lines (j + 1) (i + 1) a b = (j', i', ins', act')"
          by (simp add: merge_continuations.simps [of lines j])
        with "1.IH"(2) in_range non_blank False ab have "i + 1 \<le> i'"
          by simp
        then show ?thesis by simp
      qed
    qed
  qed
qed

lemma cas_handler_index: "cas_handler lines i line g st = (i', st') \<Longrightarrow> i \<le> i'"
  by (auto simp: cas_handler_def Let_def split: if_splits option.splits)

lemma build_step_index: "build_step lines i m uid = (i', new_step) \<Longrightarrow> i \<le> i'"
  by (auto simp: build_step_def Let_def split: prod.splits dest: merge_continuations_index)

lemma step_handler_index: "step_handler lines i m cl st = (i', st') \<Longrightarrow> i \<le> i'"
  by (auto simp: step_handler_def split: prod.splits dest: build_step_index)

lemma scan_line_advances: "scan_line lines i st = (i', st') \<Longrightarrow> i < i'"
  unfolding scan_line_def Let_def
  by (auto split: if_splits option.splits dest!: cas_handler_index step_handler_index)

text \<open>So \<open>parse_loop\<close> is total: the distance of \<open>i\<close> to the end of the lines shrinks.\<close>

termination parse_loop
proof (relation "measure (\<lambda>(lines, i, st). length lines - i)", goal_cases)
  case 1
  show ?case by simp
next
  case (2 lines i st i' st')
  then have eq: "scan_line lines i st = (i', st')" by simp
  then have "i < i'" by (rule scan_line_advances)
  with 2(1) show ?case by (simp add: eq)
qed

declare parse_loop.simps [simp del]

section \<open>What a successful match says about the text\<close>

lemma orelse_Some: "orelse a b = Some r \<Longrightarrow> a = Some r \<or> b = Some r"
  by (cases a) (simp_all add: orelse_def)

lemma orelse_None [simp]: "orelse None b = b"
  by (simp add: orelse_def)

lemma orelse_Some_left [simp]: "orelse (Some r) b = Some r"
  by (simp add: orelse_def)

lemma lit_Some: "lit p s k = Some r \<Longrightarrow> \<exists>ys. s = p @ ys \<and> k ys = Some r"
  by (auto simp: lit_def prefix_def split: if_splits)

lemma lit_append [simp]: "lit p (p @ ys) k = k ys"
  by (simp add: lit_def)

lemma cls_Some: "cls p s k = Some r \<Longrightarrow> \<exists>c cs. s = c # cs \<and> p c \<and> k c cs = Some r"
  by (cases s) (auto split: if_splits)

lemma star_Some:
  "star p acc s k = Some r \<Longrightarrow>
     \<exists>xs ys. s = xs @ ys \<and> (\<forall>c\<in>set xs. p c) \<and> k (acc @ xs) ys = Some r"
proof (induction s arbitrary: acc)
  case Nil
  then show ?case by simp
next
  case (Cons c cs)
  show ?case
  proof (cases "p c \<and> star p (acc @ [c]) cs k = Some r")
    case True
    with Cons.IH [of "acc @ [c]"] obtain xs ys
      where "cs = xs @ ys" "\<forall>c\<in>set xs. p c" "k ((acc @ [c]) @ xs) ys = Some r"
      by blast
    then have "c # cs = (c # xs) @ ys \<and> (\<forall>d\<in>set (c # xs). p d) \<and> k (acc @ c # xs) ys = Some r"
      using True by simp
    then show ?thesis by blast
  next
    case False
    with Cons.prems have "k acc (c # cs) = Some r"
      by (auto split: if_splits dest: orelse_Some)
    then have "c # cs = [] @ (c # cs) \<and> (\<forall>d\<in>set []. p d) \<and> k (acc @ []) (c # cs) = Some r"
      by simp
    then show ?thesis by blast
  qed
qed

lemma plus_Some:
  "plus p s k = Some r \<Longrightarrow>
     \<exists>xs ys. s = xs @ ys \<and> xs \<noteq> [] \<and> (\<forall>c\<in>set xs. p c) \<and> k xs ys = Some r"
proof -
  assume "plus p s k = Some r"
  then obtain c cs where s: "s = c # cs" "p c" "star p [c] cs k = Some r"
    unfolding plus_def by (blast dest: cls_Some)
  from star_Some [OF s(3)] obtain xs ys
    where "cs = xs @ ys" "\<forall>c\<in>set xs. p c" "k ([c] @ xs) ys = Some r" by blast
  with s have "s = (c # xs) @ ys \<and> c # xs \<noteq> [] \<and> (\<forall>d\<in>set (c # xs). p d) \<and> k (c # xs) ys = Some r"
    by simp
  then show ?thesis by blast
qed

lemma plus_lazy_Some:
  "plus_lazy p acc s k = Some r \<Longrightarrow>
     \<exists>xs ys. s = xs @ ys \<and> xs \<noteq> [] \<and> (\<forall>c\<in>set xs. p c) \<and> k (acc @ xs) ys = Some r"
proof (induction s arbitrary: acc)
  case Nil
  then show ?case by simp
next
  case (Cons c cs)
  from Cons.prems have pc: "p c" by (auto split: if_splits)
  with Cons.prems consider "k (acc @ [c]) cs = Some r" | "plus_lazy p (acc @ [c]) cs k = Some r"
    by (auto dest: orelse_Some)
  then show ?case
  proof cases
    case 1
    with pc have "c # cs = [c] @ cs \<and> [c] \<noteq> [] \<and> (\<forall>d\<in>set [c]. p d) \<and> k (acc @ [c]) cs = Some r"
      by simp
    then show ?thesis by blast
  next
    case 2
    from Cons.IH [OF 2] obtain xs ys
      where "cs = xs @ ys" "\<forall>c\<in>set xs. p c" "k ((acc @ [c]) @ xs) ys = Some r" by blast
    with pc have "c # cs = (c # xs) @ ys \<and> c # xs \<noteq> [] \<and> (\<forall>d\<in>set (c # xs). p d) \<and> k (acc @ c # xs) ys = Some r"
      by simp
    then show ?thesis by blast
  qed
qed

lemma upper_not_others:
  "is_upper c \<Longrightarrow> \<not> isspace c \<and> \<not> is_digit c \<and> \<not> is_lower c \<and> c \<noteq> CHR ''(''"
  by (auto simp: is_upper_def isspace_def is_digit_def is_lower_def code_def)

lemma item_pattern_upper: "is_upper c \<Longrightarrow> item_pattern (c # cs) = None"
  using upper_not_others [of c]
  by (auto simp: item_pattern_def plus_def lit_def)

lemma cas_then_no_item: "cas_message_line_pattern line = Some g \<Longrightarrow> item_pattern line = None"
  unfolding cas_message_line_pattern_def
  by (auto dest!: cls_Some simp: item_pattern_upper)

section \<open>CAS lines and step lines\<close>

text \<open>
  C2. A line is taken as a CAS message only if it does not have the shape of a step item,
  in every scan state, whether a checklist is open or not: the CAS pattern asks for a
  capital letter first, and no step item starts with one, so the branch is taken exactly
  when the CAS pattern matches.
\<close>

theorem cas_classified_excludes_step_item:
  assumes "cas_classified st line = Some g"
  shows "item_pattern line = None \<and> cas_message_line_pattern line = Some g"
proof -
  from assms have m: "cas_message_line_pattern line = Some g"
    by (auto simp: cas_classified_def split: option.splits if_splits)
  then have "item_pattern line = None" by (rule cas_then_no_item)
  with m show ?thesis by simp
qed

theorem cas_classified_excludes_step_item_witness:
  "cas_classified (initial_state\<lparr>current_checklist :=
       Some \<lparr>cl_id = 0, title = ''T'', cl_section = [], cl_subsection = None, cas = None,
             cas_type = None, cas_description = None, alert_message = None, steps = []\<rparr>\<rparr>)
     ''OIL PRESS Caution'' = Some ''OIL PRESS''
   \<and> item_pattern ''OIL PRESS Caution'' = None"
proof -
  have h: "cas_classified (initial_state\<lparr>current_checklist :=
       Some \<lparr>cl_id = 0, title = ''T'', cl_section = [], cl_subsection = None, cas = None,
             cas_type = None, cas_description = None, alert_message = None, steps = []\<rparr>\<rparr>)
     ''OIL PRESS Caution'' = Some ''OIL PRESS''"
    by code_simp
  from cas_classified_excludes_step_item [OF h] h show ?thesis by simp
qed

section \<open>The scan, line by line\<close>

lemma scan_line_cases [consumes 1, case_names ignored sec subsec title pfd cas step]:
  assumes "scan_line lines i st = (i', st')"
  obtains
    "st' = st\<lparr>line_count := line_count st + 1\<rparr>" "i' = i + 1"
  | g where "section_pattern (rstrip (lines ! i)) = Some g" "rstrip (lines ! i) \<noteq> []"
      "st' = st\<lparr>line_count := line_count st + 1, current_section := Some g\<rparr>" "i' = i + 1"
  | g where "subsection_pattern (rstrip (lines ! i)) = Some g" "rstrip (lines ! i) \<noteq> []"
      "st' = st\<lparr>line_count := line_count st + 1, current_subsection := Some g\<rparr>" "i' = i + 1"
  | g where "checklist_pattern (rstrip (lines ! i)) = Some g" "rstrip (lines ! i) \<noteq> []"
      "st' = title_handler g (st\<lparr>line_count := line_count st + 1\<rparr>)" "i' = i + 1"
  | g where "pfd_alert_pattern (rstrip (lines ! i)) = Some g" "rstrip (lines ! i) \<noteq> []"
      "st' = pfd_handler g (st\<lparr>line_count := line_count st + 1\<rparr>)" "i' = i + 1"
  | g where "cas_classified (st\<lparr>line_count := line_count st + 1\<rparr>) (rstrip (lines ! i)) = Some g"
      "rstrip (lines ! i) \<noteq> []"
      "cas_handler lines (i + 1) (rstrip (lines ! i)) g (st\<lparr>line_count := line_count st + 1\<rparr>) = (i', st')"
  | m cl where "item_pattern (rstrip (lines ! i)) = Some m" "current_checklist st = Some cl"
      "rstrip (lines ! i) \<noteq> []"
      "step_handler lines (i + 1) m cl (st\<lparr>line_count := line_count st + 1\<rparr>) = (i', st')"
  using assms unfolding scan_line_def Let_def
  by (auto split: if_splits option.splits)

lemma parse_loop_invariant:
  assumes "P st"
    and "\<And>i st i' st'. i < length lines \<Longrightarrow> P st \<Longrightarrow> scan_line lines i st = (i', st') \<Longrightarrow> P st'"
  shows "P (parse_loop lines i st)"
  using assms
proof (induction lines i st rule: parse_loop.induct)
  case (1 lines i st)
  show ?case
  proof (cases "i < length lines")
    case False
    with "1.prems"(1) show ?thesis by (simp add: parse_loop.simps)
  next
    case True
    obtain i' st' where sl: "scan_line lines i st = (i', st')"
      by (cases "scan_line lines i st")
    from "1.prems"(2) [OF True "1.prems"(1) sl] have "P st'" .
    from "1.IH" [OF True sl [symmetric] this "1.prems"(2)]
    have "P (parse_loop lines i' st')" by simp
    with True sl show ?thesis by (simp add: parse_loop.simps [of lines i])
  qed
qed

lemma cas_handler_frame:
  assumes "cas_handler lines i line g st = (i', st')"
  shows "checklists st' = checklists st \<and>
         pending_cas_description st' = pending_cas_description st \<and>
         pending_pfd_alert st' = pending_pfd_alert st \<and>
         current_section st' = current_section st \<and>
         current_subsection st' = current_subsection st \<and>
         next_uuid st' = next_uuid st \<and>
         (case current_checklist st of
            None \<Rightarrow> current_checklist st' = None
          | Some cl \<Rightarrow> \<exists>t. current_checklist st' = Some (cl\<lparr>cas := Some (strip g), cas_type := t\<rparr>))"
  using assms
  by (auto simp: cas_handler_def Let_def split: if_splits option.splits prod.splits)

lemma build_step_leaf: "build_step lines i m uid = (i', s) \<Longrightarrow> sub_steps s = []"
  by (auto simp: build_step_def Let_def split: prod.splits)

lemma step_handler_frame:
  assumes "step_handler lines i m cl st = (i', st')"
  shows "\<exists>s i''. build_step lines i m (next_uuid st) = (i'', s) \<and>
           st' = st\<lparr>current_checklist := Some (add_step_to_hierarchy cl s (indent_level s)),
                     next_uuid := next_uuid st + 1\<rparr>"
  using assms by (auto simp: step_handler_def split: prod.splits)

lemma add_step_to_hierarchy_frame:
  "add_step_to_hierarchy cl s l = cl\<lparr>steps := steps (add_step_to_hierarchy cl s l)\<rparr>"
  by (simp add: add_step_to_hierarchy_def split: option.splits)

section \<open>The CAS description\<close>

lemma add_step_to_hierarchy_cas_description:
  "cas_description (add_step_to_hierarchy cl s l) = cas_description cl"
  by (simp add: add_step_to_hierarchy_def split: option.splits)

lemma no_description_scan_line:
  assumes "scan_line lines i st = (i', st')" and "no_description st"
  shows "no_description st'"
  using assms
proof (cases rule: scan_line_cases)
  case (title g)
  with assms(2) show ?thesis
    by (auto simp: no_description_def title_handler_def append_current_def Let_def
        split: option.splits)
next
  case (pfd g)
  with assms(2) show ?thesis
    by (auto simp: no_description_def pfd_handler_def split: option.splits)
next
  case (cas g)
  from cas_handler_frame [OF cas(3)] assms(2) show ?thesis
    by (auto simp: no_description_def split: option.splits)
next
  case (step m cl)
  from step_handler_frame [OF step(4)] assms(2) step(2) show ?thesis
    by (auto simp: no_description_def add_step_to_hierarchy_cas_description)
qed (use assms(2) in \<open>auto simp: no_description_def\<close>)

lemma no_description_initial: "no_description initial_state"
  by (simp add: no_description_def initial_state_def)

lemma no_description_loop: "no_description st \<Longrightarrow> no_description (parse_loop lines i st)"
  by (rule parse_loop_invariant) (auto intro: no_description_scan_line)

text \<open>
  C9. No statement of the parser assigns the pending CAS description, so it is absent
  when the scan ends, and every checklist of the result has no \<^verbatim>\<open>cas_description\<close>.
\<close>

theorem cas_description_always_absent:
  "pending_cas_description (parse_loop lines 0 initial_state) = None \<and>
   (\<forall>cl\<in>set (parse_checklist lines). cas_description cl = None)"
  using no_description_loop [OF no_description_initial, of lines 0]
  by (auto simp: no_description_def parse_checklist_def append_current_def list_all_iff
      split: option.splits if_splits)

theorem cas_description_always_absent_witness:
  "map cas_description
     (parse_checklist [''OIL PRESS Caution'', ''PFD Alerts Window: \"Oil pressure low\"'',
                       ''###LOW OIL PRESSURE'', ''1. Oil Pressure ... CHECK'']) = [None]"
proof -
  let ?L = "[''OIL PRESS Caution'', ''PFD Alerts Window: \"Oil pressure low\"'',
             ''###LOW OIL PRESSURE'', ''1. Oil Pressure ... CHECK'']"
  have len: "length (parse_checklist ?L) = 1" by code_simp
  then obtain cl where cl: "parse_checklist ?L = [cl]"
    by (cases "parse_checklist ?L") auto
  with cas_description_always_absent [of ?L] show ?thesis by simp
qed

section \<open>The hierarchy invariant\<close>

lemma steps_below_eq: "steps_below s = s # all_steps (sub_steps s)"
  by (cases s) simp

lemma all_steps_append: "all_steps (xs @ ys) = all_steps xs @ all_steps ys"
  by (induction xs) simp_all

lemma hierarchy_ok_Nil [simp]: "hierarchy_ok []"
  by (simp add: hierarchy_ok_def)

lemma hierarchy_ok_Cons:
  "hierarchy_ok (s # ss) \<longleftrightarrow> children_one_deeper s \<and> hierarchy_ok (sub_steps s) \<and> hierarchy_ok ss"
  by (simp add: hierarchy_ok_def steps_below_eq)

lemma hierarchy_ok_append: "hierarchy_ok (xs @ ys) \<longleftrightarrow> hierarchy_ok xs \<and> hierarchy_ok ys"
  by (simp add: hierarchy_ok_def all_steps_append)

lemma children_one_deeper_levels:
  "children_one_deeper s \<longleftrightarrow> list_all (\<lambda>l. l = indent_level s + 1) (map indent_level (sub_steps s))"
  by (simp add: children_one_deeper_def list_all_iff)

lemma find_parent_keeps_hierarchy:
  "find_parent_and_add_step p new t = Some p' \<Longrightarrow> hierarchy_ok [p] \<Longrightarrow> hierarchy_ok [new] \<Longrightarrow>
     indent_level new = t \<Longrightarrow> hierarchy_ok [p'] \<and> indent_level p' = indent_level p"
  "add_to_most_recent ss new t = Some ss' \<Longrightarrow> hierarchy_ok ss \<Longrightarrow> hierarchy_ok [new] \<Longrightarrow>
     indent_level new = t \<Longrightarrow> hierarchy_ok ss' \<and> map indent_level ss' = map indent_level ss"
proof (induction p new t and ss new t arbitrary: p' and ss'
    rule: find_parent_and_add_step_add_to_most_recent.induct)
  case (1 u ins act c lvl num subs new t)
  show ?case
  proof (cases "lvl = t - 1")
    case True
    with "1.prems" show ?thesis
      by (auto simp: hierarchy_ok_Cons hierarchy_ok_append children_one_deeper_def)
  next
    case False
    with "1.prems"(1) obtain subs' where
      subs': "add_to_most_recent subs new t = Some subs'"
      and p': "p' = ChecklistStep u ins act c lvl num subs'"
      by (auto split: option.splits)
    from "1.prems"(2) have "hierarchy_ok subs" by (simp add: hierarchy_ok_Cons)
    from "1.IH" [OF False subs' this "1.prems"(3,4)]
    have "hierarchy_ok subs'" "map indent_level subs' = map indent_level subs" by simp_all
    with "1.prems"(2) p' show ?thesis
      by (simp add: hierarchy_ok_Cons children_one_deeper_levels)
  qed
next
  case (2 new t)
  then show ?case by simp
next
  case (3 s ss new t)
  from "3.prems"(2) have oks: "hierarchy_ok [s]" "hierarchy_ok ss"
    by (simp_all add: hierarchy_ok_Cons)
  show ?case
  proof (cases "add_to_most_recent ss new t")
    case (Some ss1)
    with "3.prems"(1) have eq: "ss' = s # ss1" by simp
    from "3.IH"(1) [OF Some oks(2) "3.prems"(3,4)] eq "3.prems"(2) show ?thesis
      by (simp add: hierarchy_ok_Cons)
  next
    case None
    with "3.prems"(1) obtain s1 where
      s1: "find_parent_and_add_step s new t = Some s1" and eq: "ss' = s1 # ss"
      by (auto split: option.splits)
    from "3.IH"(2) [OF None s1 oks(1) "3.prems"(3,4)] eq oks(2) show ?thesis
      by (simp add: hierarchy_ok_Cons)
  qed
qed

lemma add_step_to_hierarchy_ok:
  assumes "hierarchy_ok (steps cl)" and "hierarchy_ok [s]"
  shows "hierarchy_ok (steps (add_step_to_hierarchy cl s (indent_level s)))"
proof (cases "add_to_most_recent (steps cl) s (indent_level s)")
  case None
  with assms show ?thesis
    by (simp add: add_step_to_hierarchy_def hierarchy_ok_append)
next
  case (Some sts)
  from find_parent_keeps_hierarchy(2) [OF Some assms refl] have "hierarchy_ok sts" by simp
  with Some assms show ?thesis
    by (simp add: add_step_to_hierarchy_def hierarchy_ok_append)
qed

lemma hierarchy_state_scan_line:
  assumes "scan_line lines i st = (i', st')" and "hierarchy_state st"
  shows "hierarchy_state st'"
  using assms
proof (cases rule: scan_line_cases)
  case (title g)
  with assms(2) show ?thesis
    by (auto simp: hierarchy_state_def title_handler_def append_current_def Let_def
        split: option.splits)
next
  case (pfd g)
  with assms(2) show ?thesis
    by (auto simp: hierarchy_state_def pfd_handler_def split: option.splits)
next
  case (cas g)
  from cas_handler_frame [OF cas(3)] assms(2) show ?thesis
    by (auto simp: hierarchy_state_def split: option.splits)
next
  case (step m cl)
  from step_handler_frame [OF step(4)] obtain s i'' where
    b: "build_step lines (i + 1) m (next_uuid st) = (i'', s)" and
    st': "st' = st\<lparr>line_count := line_count st + 1,
                     current_checklist := Some (add_step_to_hierarchy cl s (indent_level s)),
                     next_uuid := next_uuid st + 1\<rparr>"
    by auto
  from build_step_leaf [OF b] have "hierarchy_ok [s]"
    by (simp add: hierarchy_ok_Cons children_one_deeper_def)
  moreover from assms(2) step(2) have "hierarchy_ok (steps cl)"
    by (simp add: hierarchy_state_def)
  ultimately have "hierarchy_ok (steps (add_step_to_hierarchy cl s (indent_level s)))"
    by (rule add_step_to_hierarchy_ok [rotated])
  with assms(2) st' show ?thesis by (simp add: hierarchy_state_def)
qed (use assms(2) in \<open>auto simp: hierarchy_state_def\<close>)

lemma hierarchy_state_loop: "hierarchy_state st \<Longrightarrow> hierarchy_state (parse_loop lines i st)"
  by (rule parse_loop_invariant) (auto intro: hierarchy_state_scan_line)

lemma hierarchy_state_initial: "hierarchy_state initial_state"
  by (simp add: hierarchy_state_def initial_state_def)

lemma hierarchy_parse: "cl \<in> set (parse_checklist lines) \<Longrightarrow> hierarchy_ok (steps cl)"
  using hierarchy_state_loop [OF hierarchy_state_initial, of lines 0]
  by (auto simp: hierarchy_state_def parse_checklist_def append_current_def list_all_iff
      split: option.splits if_splits)

text \<open>
  C3. In every checklist that a parse produces, every step of the step tree has only
  children whose \<^verbatim>\<open>indent_level\<close> is its own plus one.
\<close>

theorem child_one_level_below_parent:
  "\<forall>cl\<in>set (parse_checklist lines). \<forall>s\<in>set (all_steps (steps cl)).
     \<forall>ch\<in>set (sub_steps s). indent_level ch = indent_level s + 1"
  using hierarchy_parse [of _ lines]
  by (auto simp: hierarchy_ok_def children_one_deeper_def list_all_iff)

theorem child_one_level_below_parent_witness:
  "sub_steps (hd (steps (hd (parse_checklist
      [''###ENGINE FIRE'', ''1. Fuel Selector ... OFF'', ''  a. Mixture ... IDLE CUTOFF''])))) \<noteq> []
   \<and> indent_level (hd (sub_steps (hd (steps (hd (parse_checklist
      [''###ENGINE FIRE'', ''1. Fuel Selector ... OFF'', ''  a. Mixture ... IDLE CUTOFF'']))))))
     = indent_level (hd (steps (hd (parse_checklist
      [''###ENGINE FIRE'', ''1. Fuel Selector ... OFF'', ''  a. Mixture ... IDLE CUTOFF''])))) + 1"
proof -
  let ?L = "[''###ENGINE FIRE'', ''1. Fuel Selector ... OFF'', ''  a. Mixture ... IDLE CUTOFF'']"
  let ?child = "ChecklistStep 2 ''Mixture'' ''IDLE CUTOFF'' False 1 (Some ''a'') []"
  let ?top = "ChecklistStep 1 ''Fuel Selector'' ''OFF'' False 0 (Some ''1'') [?child]"
  have "map steps (parse_checklist ?L) = [[?top]]" by code_simp
  then obtain cl where cl: "parse_checklist ?L = [cl]" "steps cl = [?top]"
    by (auto simp: map_eq_Cons_conv)
  from child_one_level_below_parent [of ?L] cl
  have "indent_level ?child = indent_level ?top + 1" by simp
  with cl show ?thesis by simp
qed

section \<open>Section headers and titles\<close>

lemma title_not_header:
  "checklist_pattern line = Some g \<Longrightarrow>
     line \<noteq> [] \<and> section_pattern line = None \<and> subsection_pattern line = None"
proof -
  assume "checklist_pattern line = Some g"
  then obtain ys where "line = ''###'' @ ys"
    unfolding checklist_pattern_def by (blast dest: lit_Some)
  then show ?thesis
    by (simp add: section_pattern_def subsection_pattern_def lit_def is_upper_def code_def)
qed

lemma scan_line_title:
  assumes "checklist_pattern (rstrip (lines ! i)) = Some g"
  shows "scan_line lines i st = (i + 1, title_handler g (st\<lparr>line_count := line_count st + 1\<rparr>))"
  using title_not_header [OF assms] assms by (simp add: scan_line_def Let_def)

lemma section_not_blank: "section_pattern line = Some g \<Longrightarrow> line \<noteq> [] \<and> g \<noteq> []"
  unfolding section_pattern_def
  by (auto dest!: lit_Some cls_Some plus_Some simp: at_eol_def split: if_splits)

lemma scan_line_section:
  assumes "section_pattern (rstrip (lines ! i)) = Some g"
  shows "scan_line lines i st =
           (i + 1, st\<lparr>line_count := line_count st + 1, current_section := Some g\<rparr>)"
  using section_not_blank [OF assms] assms by (simp add: scan_line_def Let_def)

lemma scan_line_keeps_subsection:
  assumes "subsection_pattern (rstrip (lines ! i)) = None"
  shows "current_subsection (snd (scan_line lines i st)) = current_subsection st"
proof -
  obtain i' st' where sl: "scan_line lines i st = (i', st')"
    by (cases "scan_line lines i st")
  from sl have "current_subsection st' = current_subsection st"
  proof (cases rule: scan_line_cases)
    case (subsec g)
    with assms show ?thesis by simp
  next
    case (title g)
    then show ?thesis by (simp add: title_handler_def Let_def)
  next
    case (pfd g)
    then show ?thesis by (simp add: pfd_handler_def split: option.splits)
  next
    case (cas g)
    from cas_handler_frame [OF cas(3)] show ?thesis by simp
  next
    case (step m cl)
    from step_handler_frame [OF step(4)] show ?thesis by auto
  qed simp_all
  with sl show ?thesis by simp
qed

text \<open>
  C10. A section header line sets \<^verbatim>\<open>current_section\<close> and leaves
  \<^verbatim>\<open>current_subsection\<close> as it was; a checklist whose title is the next line therefore
  takes the new section and the subsection that was current before the header. More
  generally no line other than a subsection header changes \<^verbatim>\<open>current_subsection\<close>.
\<close>

theorem section_header_keeps_subsection:
  assumes "section_pattern (rstrip (lines ! i)) = Some g"
  shows "fst (scan_line lines i st) = i + 1 \<and>
         current_section (snd (scan_line lines i st)) = Some g \<and>
         current_subsection (snd (scan_line lines i st)) = current_subsection st \<and>
         (checklist_pattern (rstrip (lines ! (i + 1))) = Some t \<longrightarrow>
            (\<exists>cl. current_checklist (snd (scan_line lines (i + 1) (snd (scan_line lines i st)))) = Some cl \<and>
                  cl_section cl = g \<and> cl_subsection cl = current_subsection st)) \<and>
         (subsection_pattern (rstrip (lines ! k)) = None \<longrightarrow>
            current_subsection (snd (scan_line lines k st0)) = current_subsection st0)"
  by (auto simp: scan_line_section [OF assms] scan_line_title title_handler_def Let_def
      scan_line_keeps_subsection)

theorem section_header_keeps_subsection_witness:
  "section_pattern (rstrip ([''#ABNORMAL'', ''###ALTERNATOR FAILURE''] ! 0)) = Some ''ABNORMAL'' \<and>
   checklist_pattern (rstrip ([''#ABNORMAL'', ''###ALTERNATOR FAILURE''] ! (0 + 1)))
     = Some ''ALTERNATOR FAILURE'' \<and>
   (\<exists>cl. current_checklist (snd (scan_line [''#ABNORMAL'', ''###ALTERNATOR FAILURE''] (0 + 1)
            (snd (scan_line [''#ABNORMAL'', ''###ALTERNATOR FAILURE''] 0
               (initial_state\<lparr>current_section := Some ''EMERGENCY'',
                               current_subsection := Some ''Engine''\<rparr>))))) = Some cl \<and>
         cl_section cl = ''ABNORMAL'' \<and> cl_subsection cl = Some ''Engine'') \<and>
   map (\<lambda>cl. (cl_section cl, cl_subsection cl))
     (parse_checklist [''#EMERGENCY'', ''##Engine'', ''#ABNORMAL'', ''###ALTERNATOR FAILURE'',
                       ''1. Alternator Switch ... OFF''])
     = [(''ABNORMAL'', Some ''Engine'')]"
proof -
  let ?L = "[''#ABNORMAL'', ''###ALTERNATOR FAILURE'']"
  let ?st = "initial_state\<lparr>current_section := Some ''EMERGENCY'',
                            current_subsection := Some ''Engine''\<rparr>"
  have h1: "section_pattern (rstrip (?L ! 0)) = Some ''ABNORMAL''" by code_simp
  have h2: "checklist_pattern (rstrip (?L ! (0 + 1))) = Some ''ALTERNATOR FAILURE''" by code_simp
  have whole: "map (\<lambda>cl. (cl_section cl, cl_subsection cl))
     (parse_checklist [''#EMERGENCY'', ''##Engine'', ''#ABNORMAL'', ''###ALTERNATOR FAILURE'',
                       ''1. Alternator Switch ... OFF''])
     = [(''ABNORMAL'', Some ''Engine'')]" by code_simp
  from section_header_keeps_subsection [OF h1, where t = "''ALTERNATOR FAILURE''" and st = ?st,
      THEN conjunct2, THEN conjunct2, THEN conjunct2, THEN conjunct1] h1 h2 whole
  show ?thesis by simp
qed

section \<open>Which checklists reach the output\<close>

lemma add_step_to_hierarchy_steps: "steps (add_step_to_hierarchy cl s l) \<noteq> []"
proof (cases "add_to_most_recent (steps cl) s l")
  case None
  then show ?thesis by (simp add: add_step_to_hierarchy_def)
next
  case (Some sts)
  have "\<And>ss'. add_to_most_recent ss s l = Some ss' \<Longrightarrow> ss' \<noteq> []" for ss
    by (cases ss) (auto split: option.splits)
  with Some show ?thesis by (auto simp: add_step_to_hierarchy_def)
qed

lemma add_step_to_hierarchy_id: "cl_id (add_step_to_hierarchy cl s l) = cl_id cl"
  by (simp add: add_step_to_hierarchy_def split: option.splits)

lemma completed_have_steps_scan_line:
  assumes "scan_line lines i st = (i', st')" and "completed_have_steps st"
  shows "completed_have_steps st'"
  using assms
proof (cases rule: scan_line_cases)
  case (title g)
  with assms(2) show ?thesis
    by (auto simp: completed_have_steps_def title_handler_def append_current_def Let_def
        split: option.splits)
next
  case (pfd g)
  with assms(2) show ?thesis
    by (auto simp: completed_have_steps_def pfd_handler_def split: option.splits)
next
  case (cas g)
  from cas_handler_frame [OF cas(3)] assms(2) show ?thesis
    by (auto simp: completed_have_steps_def)
next
  case (step m cl)
  from step_handler_frame [OF step(4)] assms(2) show ?thesis
    by (auto simp: completed_have_steps_def)
qed (use assms(2) in \<open>auto simp: completed_have_steps_def\<close>)

lemma completed_have_steps_loop:
  "completed_have_steps st \<Longrightarrow> completed_have_steps (parse_loop lines i st)"
  by (rule parse_loop_invariant) (auto intro: completed_have_steps_scan_line)

lemma parse_checklist_have_steps: "cl \<in> set (parse_checklist lines) \<Longrightarrow> steps cl \<noteq> []"
proof -
  have "completed_have_steps initial_state"
    by (simp add: completed_have_steps_def initial_state_def)
  from completed_have_steps_loop [OF this, of lines 0] show "cl \<in> set (parse_checklist lines) \<Longrightarrow> steps cl \<noteq> []"
    by (auto simp: completed_have_steps_def parse_checklist_def append_current_def list_all_iff
        split: option.splits if_splits)
qed

lemma scan_line_no_step:
  assumes "scan_line lines i st = (i', st')" and "item_pattern (rstrip (lines ! i)) = None"
  shows "map cl_id (append_current st') = map cl_id (append_current st)"
  using assms(1)
proof (cases rule: scan_line_cases)
  case (title g)
  then show ?thesis
    by (auto simp: title_handler_def append_current_def Let_def split: option.splits)
next
  case (pfd g)
  then show ?thesis
    by (auto simp: pfd_handler_def append_current_def split: option.splits)
next
  case (cas g)
  from cas_handler_frame [OF cas(3)] show ?thesis
    by (auto simp: append_current_def split: option.splits)
next
  case (step m cl)
  with assms(2) show ?thesis by simp
qed (auto simp: append_current_def split: option.splits)

lemma parse_loop_no_step:
  assumes "\<forall>k. i \<le> k \<and> k < length lines \<longrightarrow> item_pattern (rstrip (lines ! k)) = None"
  shows "map cl_id (append_current (parse_loop lines i st)) = map cl_id (append_current st)"
  using assms
proof (induction lines i st rule: parse_loop.induct)
  case (1 lines i st)
  show ?case
  proof (cases "i < length lines")
    case False
    then show ?thesis by (simp add: parse_loop.simps)
  next
    case True
    obtain i' st' where sl: "scan_line lines i st = (i', st')"
      by (cases "scan_line lines i st")
    from scan_line_advances [OF sl] "1.prems"
    have "\<forall>k. i' \<le> k \<and> k < length lines \<longrightarrow> item_pattern (rstrip (lines ! k)) = None"
      by simp
    from "1.IH" [OF True sl [symmetric] this]
    have "map cl_id (append_current (parse_loop lines i' st')) = map cl_id (append_current st')" .
    moreover from "1.prems" True have "item_pattern (rstrip (lines ! i)) = None" by simp
    from scan_line_no_step [OF sl this]
    have "map cl_id (append_current st') = map cl_id (append_current st)" .
    ultimately show ?thesis using True sl by (simp add: parse_loop.simps [of lines i])
  qed
qed

lemma scan_line_checklists_grow:
  assumes "scan_line lines i st = (i', st')"
  shows "prefix (checklists st) (checklists st')"
  using assms
proof (cases rule: scan_line_cases)
  case (title g)
  then show ?thesis
    by (auto simp: title_handler_def append_current_def Let_def split: option.splits)
next
  case (pfd g)
  then show ?thesis by (auto simp: pfd_handler_def split: option.splits)
next
  case (cas g)
  from cas_handler_frame [OF cas(3)] show ?thesis by simp
next
  case (step m cl)
  from step_handler_frame [OF step(4)] show ?thesis by auto
qed auto

lemma parse_loop_checklists_grow: "prefix (checklists st) (checklists (parse_loop lines i st))"
proof -
  have "prefix (checklists st) (checklists st)" by simp
  then show ?thesis
  proof (rule parse_loop_invariant [where P = "\<lambda>s. prefix (checklists st) (checklists s)"])
    fix i s i' s'
    assume "prefix (checklists st) (checklists s)" and "scan_line lines i s = (i', s')"
    then show "prefix (checklists st) (checklists s')"
      using scan_line_checklists_grow [of lines i s i' s'] by (blast intro: prefix_order.trans)
  qed
qed

text \<open>
  C8. A checklist is in the output exactly when it has gathered a step. Every checklist
  of the result has a step. A title line opens a checklist without steps and moves the
  checklist open until then to the completed ones exactly when it has a step; a step
  line leaves the open checklist with a step; the completed checklists are never taken
  back; at the end of the scan the open checklist is added exactly when it has a step.
  So from any point of the scan on, if no step line follows, the output is made of the
  checklists that had a step by then, whatever titles follow.
\<close>

theorem checklist_in_output_iff_steps:
  "(\<forall>cl\<in>set (parse_checklist lines). steps cl \<noteq> []) \<and>
   parse_checklist lines =
     checklists (parse_loop lines 0 initial_state) @
     (case current_checklist (parse_loop lines 0 initial_state) of
        None \<Rightarrow> [] | Some cl \<Rightarrow> if steps cl \<noteq> [] then [cl] else []) \<and>
   (checklist_pattern (rstrip (lines ! i)) = Some g \<longrightarrow>
      checklists (snd (scan_line lines i st)) =
        checklists st @
        (case current_checklist st of
           None \<Rightarrow> [] | Some cl \<Rightarrow> if steps cl \<noteq> [] then [cl] else []) \<and>
      (\<exists>c. current_checklist (snd (scan_line lines i st)) = Some c \<and> steps c = [])) \<and>
   steps (add_step_to_hierarchy cl0 s0 l0) \<noteq> [] \<and>
   prefix (checklists st) (checklists (parse_loop lines j st)) \<and>
   ((\<forall>k. j \<le> k \<and> k < length lines \<longrightarrow> item_pattern (rstrip (lines ! k)) = None) \<longrightarrow>
      map cl_id (append_current (parse_loop lines j st)) = map cl_id (append_current st))"
proof (intro conjI impI)
  show "\<forall>cl\<in>set (parse_checklist lines). steps cl \<noteq> []"
    by (blast dest: parse_checklist_have_steps)
  show "parse_checklist lines =
     checklists (parse_loop lines 0 initial_state) @
     (case current_checklist (parse_loop lines 0 initial_state) of
        None \<Rightarrow> [] | Some cl \<Rightarrow> if steps cl \<noteq> [] then [cl] else [])"
    by (simp add: parse_checklist_def append_current_def split: option.splits)
  show "steps (add_step_to_hierarchy cl0 s0 l0) \<noteq> []"
    by (rule add_step_to_hierarchy_steps)
  show "prefix (checklists st) (checklists (parse_loop lines j st))"
    by (rule parse_loop_checklists_grow)
next
  assume t: "checklist_pattern (rstrip (lines ! i)) = Some g"
  show "checklists (snd (scan_line lines i st)) =
        checklists st @
        (case current_checklist st of
           None \<Rightarrow> [] | Some cl \<Rightarrow> if steps cl \<noteq> [] then [cl] else [])"
    by (simp add: scan_line_title [OF t] title_handler_def append_current_def Let_def
        split: option.splits)
  show "\<exists>c. current_checklist (snd (scan_line lines i st)) = Some c \<and> steps c = []"
    by (simp add: scan_line_title [OF t] title_handler_def Let_def)
next
  assume "\<forall>k. j \<le> k \<and> k < length lines \<longrightarrow> item_pattern (rstrip (lines ! k)) = None"
  then show "map cl_id (append_current (parse_loop lines j st)) = map cl_id (append_current st)"
    by (rule parse_loop_no_step)
qed

theorem checklist_in_output_iff_steps_witness:
  "map title (parse_checklist
      [''###PREFLIGHT NOTES'', ''###ENGINE FIRE'', ''1. Fuel Selector ... OFF'', ''###REMARKS''])
     = [''ENGINE FIRE''] \<and>
   steps (hd (parse_checklist
      [''###PREFLIGHT NOTES'', ''###ENGINE FIRE'', ''1. Fuel Selector ... OFF'', ''###REMARKS'']))
     \<noteq> [] \<and>
   parse_checklist [''###PREFLIGHT NOTES'', ''###REMARKS''] = []"
proof -
  let ?L = "[''###PREFLIGHT NOTES'', ''###ENGINE FIRE'', ''1. Fuel Selector ... OFF'', ''###REMARKS'']"
  let ?M = "[''###PREFLIGHT NOTES'', ''###REMARKS'']"
  have t: "map title (parse_checklist ?L) = [''ENGINE FIRE'']" by code_simp
  then obtain cl where cl: "parse_checklist ?L = [cl]" by (auto simp: map_eq_Cons_conv)
  from checklist_in_output_iff_steps [of ?L, THEN conjunct1] cl
  have s: "steps (hd (parse_checklist ?L)) \<noteq> []"
    by simp
  have n0: "item_pattern (rstrip (?M ! 0)) = None" by code_simp
  have n1: "item_pattern (rstrip (?M ! 1)) = None" by code_simp
  have "\<forall>k. 0 \<le> k \<and> k < length ?M \<longrightarrow> item_pattern (rstrip (?M ! k)) = None"
  proof (intro allI impI)
    fix k assume "0 \<le> k \<and> k < length ?M"
    then have "k = 0 \<or> k = 1" by auto
    with n0 n1 show "item_pattern (rstrip (?M ! k)) = None" by auto
  qed
  with checklist_in_output_iff_steps [of ?M _ _ initial_state _ _ _ 0,
      THEN conjunct2, THEN conjunct2, THEN conjunct2, THEN conjunct2, THEN conjunct2]
  have "map cl_id (append_current (parse_loop ?M 0 initial_state))
          = map cl_id (append_current initial_state)"
    by blast
  then have "parse_checklist ?M = []"
    by (simp add: parse_checklist_def append_current_def initial_state_def)
  with t s show ?thesis by simp
qed

section \<open>The validator, and three inputs\<close>

lemma validate_steps_all_steps:
  "validate_step s t = concat (map (step_warnings t) (steps_below s))"
  "validate_steps sts t = concat (map (step_warnings t) (all_steps sts))"
proof (induction s t and sts t rule: validate_step_validate_steps.induct)
  case (1 u ins act c lvl num subs t)
  show ?case
  proof (cases "subs = []")
    case True
    then show ?thesis by (simp add: step_warnings_def)
  next
    case False
    with "1.IH" show ?thesis by (simp add: step_warnings_def)
  qed
qed simp_all

text \<open>
  C7, as the code has it. The validator reads the tree and returns warnings only. For
  every step of the tree, in the order of the tree, it reports an inconsistent
  indentation exactly when some child's level is at most the step's own level (and a
  missing instruction exactly when the instruction is empty).
\<close>

theorem validate_steps_reports:
  "validate_steps sts t = concat (map (step_warnings t) (all_steps sts)) \<and>
   (InconsistentIndentation n t \<in> set (validate_steps sts t) \<longleftrightarrow>
      (\<exists>s\<in>set (all_steps sts). step_number s = n \<and>
         (\<exists>sub\<in>set (sub_steps s). indent_level sub \<le> indent_level s)))"
  by (auto simp: validate_steps_all_steps step_warnings_def list_ex_iff split: if_splits)

theorem validate_steps_reports_witness:
  "validate_steps
     [ChecklistStep 0 ''Fuel Selector'' ''OFF'' False 1 (Some ''a'')
        [ChecklistStep 1 ''Mixture'' ''IDLE CUTOFF'' False 1 (Some ''b'') []]] ''ENGINE FIRE''
   = [InconsistentIndentation (Some ''a'') ''ENGINE FIRE'']"
  using validate_steps_reports
    [of "[ChecklistStep 0 ''Fuel Selector'' ''OFF'' False 1 (Some ''a'')
           [ChecklistStep 1 ''Mixture'' ''IDLE CUTOFF'' False 1 (Some ''b'') []]]"
        "''ENGINE FIRE''"]
  by (simp add: step_warnings_def)

text \<open>
  C7 as stated fails: a step at level 0 whose only child is at level 2 has a child that
  is not exactly one level deeper, and the validator reports nothing.
\<close>

theorem validate_steps_misses_deeper_child:
  "\<not> children_one_deeper
       (ChecklistStep 0 ''Fuel Selector'' ''OFF'' False 0 (Some ''1'')
          [ChecklistStep 1 ''Mixture'' ''IDLE CUTOFF'' False 2 (Some ''(1)'') []]) \<and>
   validate_steps
     [ChecklistStep 0 ''Fuel Selector'' ''OFF'' False 0 (Some ''1'')
        [ChecklistStep 1 ''Mixture'' ''IDLE CUTOFF'' False 2 (Some ''(1)'') []]] ''ENGINE FIRE''
   = []"
  by (simp add: children_one_deeper_def)

lemma scan_line_no_pattern:
  assumes "rstrip (lines ! i) = [] \<or> \<not> starts_new_pattern (rstrip (lines ! i))"
  shows "scan_line lines i st = (i + 1, st\<lparr>line_count := line_count st + 1\<rparr>)"
  using assms
  by (auto simp: scan_line_def Let_def starts_new_pattern_def cas_classified_def)

text \<open>
  C1 on the lines \<^verbatim>\<open>###T\<close>, \<^verbatim>\<open>1. foo\<close>, an empty line, \<^verbatim>\<open>bar\<close>, \<^verbatim>\<open>2. baz\<close>: the step
  at index 1 takes \<^verbatim>\<open>bar\<close> (index 3) into its instruction, and the scan goes on at index
  3, the line it has just merged, not at index 4. The line is read again by the main loop,
  where it matches no pattern and changes only the count of lines (\<open>scan_line_no_pattern\<close>).
\<close>

theorem merged_line_is_scanned_again:
  "fst (scan_line [''###T'', ''1. foo'', '''', ''bar'', ''2. baz''] 1
         (snd (scan_line [''###T'', ''1. foo'', '''', ''bar'', ''2. baz''] 0 initial_state))) = 3 \<and>
   map_option (\<lambda>cl. map instruction (steps cl))
     (current_checklist (snd (scan_line [''###T'', ''1. foo'', '''', ''bar'', ''2. baz''] 1
         (snd (scan_line [''###T'', ''1. foo'', '''', ''bar'', ''2. baz''] 0 initial_state)))))
     = Some [''foo bar''] \<and>
   [''###T'', ''1. foo'', '''', ''bar'', ''2. baz''] ! 3 = ''bar'' \<and>
   map (\<lambda>cl. map instruction (steps cl)) (parse_checklist [''###T'', ''1. foo'', '''', ''bar'', ''2. baz''])
     = [[''foo bar'', ''baz'']]"
  by code_simp

text \<open>
  C5 on \<^verbatim>\<open>###T\<close>, \<^verbatim>\<open>FOO Caution\<close>, \<^verbatim>\<open>FOO\<close>, \<^verbatim>\<open>1. x ... Y\<close>: the repeat of the name
  after a line that carries the qualifier is taken as a CAS message of its own and
  replaces the type \<^verbatim>\<open>Caution\<close> by none; without the repeat the type stays.
\<close>

theorem repeat_after_qualifier_clears_type:
  "map (\<lambda>cl. (cas cl, cas_type cl))
     (parse_checklist [''###T'', ''FOO Caution'', ''FOO'', ''1. x ... Y''])
     = [(Some ''FOO'', None)] \<and>
   map (\<lambda>cl. (cas cl, cas_type cl))
     (parse_checklist [''###T'', ''FOO Caution'', ''1. x ... Y''])
     = [(Some ''FOO'', Some ''Caution'')]"
  by code_simp

text \<open>
  C4 on a PFD alert line whose quoted text is one blank, then two checklists: the pending
  alert is the empty string, the title does not clear it, and the second checklist takes
  it as well. On a CAS line before two checklists the code does what the last part of the
  claim says: only the first checklist has the CAS message.
\<close>

theorem empty_alert_stays_pending:
  "pending_pfd_alert
     (snd (scan_line [''PFD Alerts Window: \" \"'', ''###A'', ''1. x'', ''###B'', ''1. y''] 1
        (snd (scan_line [''PFD Alerts Window: \" \"'', ''###A'', ''1. x'', ''###B'', ''1. y''] 0
           initial_state)))) = Some [] \<and>
   map (\<lambda>cl. (title cl, alert_message cl))
     (parse_checklist [''PFD Alerts Window: \" \"'', ''###A'', ''1. x'', ''###B'', ''1. y''])
     = [(''A'', Some []), (''B'', Some [])] \<and>
   map (\<lambda>cl. (title cl, cas cl, cas_type cl))
     (parse_checklist [''FOO Caution'', ''###A'', ''1. x'', ''###B'', ''1. y''])
     = [(''A'', Some ''FOO'', Some ''Caution''), (''B'', None, None)]"
  by code_simp

section \<open>Computing the step pattern\<close>

lemma orelse_None_right [simp]: "orelse a None = a"
  by (cases a) (simp_all add: orelse_def)

lemma star_no_shorter:
  assumes "\<forall>c\<in>set xs. p c"
    and "ys = [] \<or> \<not> p (hd ys)"
    and "\<forall>n<length xs. k (acc @ take n xs) (drop n xs @ ys) = None"
  shows "star p acc (xs @ ys) k = k (acc @ xs) ys"
  using assms
proof (induction xs arbitrary: acc)
  case Nil
  then show ?case by (cases ys) auto
next
  case (Cons x xs)
  from Cons.prems(3) have "k acc (x # xs @ ys) = None" by fastforce
  moreover have "star p (acc @ [x]) (xs @ ys) k = k ((acc @ [x]) @ xs) ys"
  proof (rule Cons.IH)
    show "\<forall>c\<in>set xs. p c" using Cons.prems(1) by simp
    show "ys = [] \<or> \<not> p (hd ys)" by (rule Cons.prems(2))
    show "\<forall>n<length xs. k ((acc @ [x]) @ take n xs) (drop n xs @ ys) = None"
    proof (intro allI impI)
      fix n assume "n < length xs"
      then have "Suc n < length (x # xs)" by simp
      with Cons.prems(3) have "k (acc @ take (Suc n) (x # xs)) (drop (Suc n) (x # xs) @ ys) = None"
        by blast
      then show "k ((acc @ [x]) @ take n xs) (drop n xs @ ys) = None" by simp
    qed
  qed
  ultimately show ?case using Cons.prems(1) by simp
qed

lemma star_longest:
  assumes "\<forall>c\<in>set xs. p c"
    and "ys = [] \<or> \<not> p (hd ys)"
    and "k (acc @ xs) ys = Some r"
  shows "star p acc (xs @ ys) k = Some r"
  using assms
proof (induction xs arbitrary: acc)
  case Nil
  then show ?case by (cases ys) auto
next
  case (Cons x xs)
  have "star p (acc @ [x]) (xs @ ys) k = Some r"
    by (rule Cons.IH) (use Cons.prems in auto)
  with Cons.prems(1) show ?case by simp
qed

lemma plus_no_shorter:
  assumes "xs \<noteq> []" and "\<forall>c\<in>set xs. p c"
    and "ys = [] \<or> \<not> p (hd ys)"
    and "\<forall>n. 0 < n \<and> n < length xs \<longrightarrow> k (take n xs) (drop n xs @ ys) = None"
  shows "plus p (xs @ ys) k = k xs ys"
proof -
  from assms(1) obtain x xs' where xs: "xs = x # xs'" by (cases xs) auto
  have "star p [x] (xs' @ ys) k = k ([x] @ xs') ys"
  proof (rule star_no_shorter)
    show "\<forall>c\<in>set xs'. p c" using assms(2) xs by simp
    show "ys = [] \<or> \<not> p (hd ys)" by (rule assms(3))
    show "\<forall>n<length xs'. k ([x] @ take n xs') (drop n xs' @ ys) = None"
    proof (intro allI impI)
      fix n assume "n < length xs'"
      then have "0 < Suc n \<and> Suc n < length xs" using xs by simp
      with assms(4) have "k (take (Suc n) xs) (drop (Suc n) xs @ ys) = None" by blast
      with xs show "k ([x] @ take n xs') (drop n xs' @ ys) = None" by simp
    qed
  qed
  with assms(2) xs show ?thesis by (simp add: plus_def)
qed

lemma plus_longest:
  assumes "xs \<noteq> []" and "\<forall>c\<in>set xs. p c"
    and "ys = [] \<or> \<not> p (hd ys)"
    and "k xs ys = Some r"
  shows "plus p (xs @ ys) k = Some r"
proof -
  from assms(1) obtain x xs' where xs: "xs = x # xs'" by (cases xs) auto
  have "star p [x] (xs' @ ys) k = Some r"
    by (rule star_longest) (use assms xs in auto)
  with assms(2) xs show ?thesis by (simp add: plus_def)
qed

lemma plus_lazy_first:
  assumes "xs \<noteq> []" and "\<forall>c\<in>set xs. p c"
    and "\<forall>n. 0 < n \<and> n < length xs \<longrightarrow> k (acc @ take n xs) (drop n xs @ ys) = None"
    and "k (acc @ xs) ys = Some r"
  shows "plus_lazy p acc (xs @ ys) k = Some r"
  using assms
proof (induction xs arbitrary: acc)
  case Nil
  then show ?case by simp
next
  case (Cons x xs)
  show ?case
  proof (cases "xs = []")
    case True
    with Cons.prems show ?thesis by simp
  next
    case False
    from False have "0 < Suc 0 \<and> Suc 0 < length (x # xs)" by simp
    with Cons.prems(3)
    have "k (acc @ take (Suc 0) (x # xs)) (drop (Suc 0) (x # xs) @ ys) = None" by blast
    then have first: "k (acc @ [x]) (xs @ ys) = None" by simp
    have "plus_lazy p (acc @ [x]) (xs @ ys) k = Some r"
    proof (rule Cons.IH [OF False])
      show "\<forall>c\<in>set xs. p c" using Cons.prems(2) by simp
      show "k ((acc @ [x]) @ xs) ys = Some r" using Cons.prems(4) by simp
      show "\<forall>n. 0 < n \<and> n < length xs \<longrightarrow> k ((acc @ [x]) @ take n xs) (drop n xs @ ys) = None"
      proof (intro allI impI)
        fix n assume "0 < n \<and> n < length xs"
        then have "0 < Suc n \<and> Suc n < length (x # xs)" by simp
        with Cons.prems(3)
        have "k (acc @ take (Suc n) (x # xs)) (drop (Suc n) (x # xs) @ ys) = None" by blast
        then show "k ((acc @ [x]) @ take n xs) (drop n xs @ ys) = None" by simp
      qed
    qed
    with first Cons.prems(2) show ?thesis by simp
  qed
qed

lemma plus_fail: "s = [] \<or> \<not> p (hd s) \<Longrightarrow> plus p s k = None"
  by (cases s) (auto simp: plus_def)

lemma cls_fail: "s = [] \<or> \<not> p (hd s) \<Longrightarrow> cls p s k = None"
  by (cases s) auto

lemma lit_fail: "s = [] \<or> hd s \<noteq> c \<Longrightarrow> lit (c # p) s k = None"
  by (cases s) (auto simp: lit_def)

lemma space_not_numbering:
  "isspace c \<Longrightarrow> \<not> is_digit c \<and> \<not> is_lower c \<and> c \<noteq> CHR ''(''"
  by (auto simp: isspace_def is_digit_def is_lower_def code_def)

lemma digit_not_others:
  "is_digit c \<Longrightarrow> \<not> isspace c \<and> \<not> is_lower c \<and> c \<noteq> CHR ''('' \<and> c \<noteq> CHR ''.'' \<and> c \<noteq> CHR '')''"
  by (auto simp: isspace_def is_digit_def is_lower_def code_def)

lemma lower_not_others:
  "is_lower c \<Longrightarrow> \<not> isspace c \<and> \<not> is_digit c \<and> c \<noteq> CHR ''(''"
  by (auto simp: isspace_def is_digit_def is_lower_def code_def)

lemma paren_not_others:
  "\<not> isspace (CHR ''('') \<and> \<not> is_digit (CHR ''('') \<and> \<not> is_lower (CHR ''('')"
  by (simp add: isspace_def is_digit_def is_lower_def code_def)

lemma item_pattern_numbering: "item_pattern line = star isspace [] line item_numbering"
  unfolding item_pattern_def item_numbering_def ..

lemma item_numbering_space: "isspace c \<Longrightarrow> item_numbering ind (c # r) = None"
  using space_not_numbering [of c]
  by (simp add: item_numbering_def plus_fail cls_fail lit_fail)

lemma item_pattern_indent:
  assumes "\<forall>c\<in>set ws. isspace c" and "r \<noteq> []" and "\<not> isspace (hd r)"
  shows "item_pattern (ws @ r) = item_numbering ws r"
proof -
  have "star isspace [] (ws @ r) item_numbering = item_numbering ([] @ ws) r"
  proof (rule star_no_shorter)
    show "\<forall>c\<in>set ws. isspace c" by fact
    show "r = [] \<or> \<not> isspace (hd r)" using assms(3) by simp
    show "\<forall>n<length ws. item_numbering ([] @ take n ws) (drop n ws @ r) = None"
    proof (intro allI impI)
      fix n assume n: "n < length ws"
      then obtain c cs where d: "drop n ws = c # cs" by (cases "drop n ws") auto
      then have "c \<in> set ws" by (metis in_set_dropD list.set_intros(1))
      with assms(1) have "isspace c" by blast
      with d show "item_numbering ([] @ take n ws) (drop n ws @ r) = None"
        by (simp add: item_numbering_space)
    qed
  qed
  then show ?thesis by (simp add: item_pattern_numbering)
qed

lemma plus_digits_then:
  assumes "n \<noteq> []" and "\<forall>c\<in>set n. is_digit c" and "\<not> is_digit d"
  shows "plus is_digit (n @ d # r) (\<lambda>a r1. lit [d] r1 (k a)) = k n r"
proof -
  have "plus is_digit (n @ d # r) (\<lambda>a r1. lit [d] r1 (k a)) = lit [d] (d # r) (k n)"
  proof (rule plus_no_shorter)
    show "n \<noteq> []" by fact
    show "\<forall>c\<in>set n. is_digit c" by fact
    show "d # r = [] \<or> \<not> is_digit (hd (d # r))" using assms(3) by simp
    show "\<forall>j. 0 < j \<and> j < length n \<longrightarrow> lit [d] (drop j n @ d # r) (k (take j n)) = None"
    proof (intro allI impI)
      fix j assume "0 < j \<and> j < length n"
      then obtain c cs where dr: "drop j n = c # cs" by (cases "drop j n") auto
      then have "c \<in> set n" by (metis in_set_dropD list.set_intros(1))
      with assms(2,3) have "c \<noteq> d" by auto
      with dr show "lit [d] (drop j n @ d # r) (k (take j n)) = None"
        by (simp add: lit_fail)
    qed
  qed
  then show ?thesis by (simp add: lit_def)
qed

lemma item_numbering_digits:
  assumes "n \<noteq> []" and "\<forall>c\<in>set n. is_digit c"
  shows "item_numbering ind (n @ ''.'' @ r) = item_tail ind (Some n) None None r"
proof -
  from assms obtain c cs where n: "n = c # cs" "is_digit c" by (cases n) auto
  have "\<not> is_digit (CHR ''.'')" by (simp add: is_digit_def code_def)
  from plus_digits_then [OF assms this, of r "\<lambda>a r2. item_tail ind (Some a) None None r2"]
  have "plus is_digit (n @ ''.'' @ r) (\<lambda>n1 r1. lit ''.'' r1 (\<lambda>r2. item_tail ind (Some n1) None None r2))
          = item_tail ind (Some n) None None r" by simp
  moreover have "lit ''('' (n @ ''.'' @ r) k1 = None" for k1 :: "string \<Rightarrow> item_groups option"
    using n digit_not_others [of c] by (simp add: lit_fail)
  moreover have "cls is_lower (n @ ''.'' @ r) k2 = None" for k2 :: "char \<Rightarrow> string \<Rightarrow> item_groups option"
    using n digit_not_others [of c] by (simp add: cls_fail)
  ultimately show ?thesis by (simp add: item_numbering_def)
qed

lemma item_numbering_paren:
  assumes "n \<noteq> []" and "\<forall>c\<in>set n. is_digit c"
  shows "item_numbering ind (''('' @ n @ '')'' @ r) = item_tail ind None (Some n) None r"
proof -
  have "\<not> is_digit (CHR '')'')" by (simp add: is_digit_def code_def)
  from plus_digits_then [OF assms this, of r "\<lambda>a r3. item_tail ind None (Some a) None r3"]
  have "plus is_digit (n @ '')'' @ r) (\<lambda>n2 r2. lit '')'' r2 (\<lambda>r3. item_tail ind None (Some n2) None r3))
          = item_tail ind None (Some n) None r" by simp
  then show ?thesis
    using paren_not_others by (simp add: item_numbering_def plus_fail cls_fail lit_def)
qed

lemma item_numbering_letter:
  assumes "is_lower c"
  shows "item_numbering ind ([c] @ ''.'' @ r) = item_tail ind None None (Some [c]) r"
  using assms lower_not_others [of c]
  by (simp add: item_numbering_def plus_fail lit_fail) (simp add: lit_def)

lemma item_tail_groups:
  "item_tail ind a b l r = Some m \<Longrightarrow> indent m = ind \<and> num1 m = a \<and> num2 m = b \<and> letter m = l"
  unfolding item_tail_def
  by (auto dest!: plus_Some plus_lazy_Some lit_Some star_Some orelse_Some
      simp: at_eol_def split: if_splits)

section \<open>Well-formed step lines\<close>

lemma at_eol_Nil [simp]: "at_eol [] r = Some r"
  by (simp add: at_eol_def eol_def)

lemma item_tail_well_formed:
  assumes sp: "sp \<noteq> []" "\<forall>c\<in>set sp. isspace c"
    and tx: "text \<noteq> []" "\<not> isspace (hd text)" "\<forall>c\<in>set text. c \<noteq> CHR ''.'' \<and> not_newline c"
    and rest: "\<forall>c\<in>set rest. not_newline c" "\<exists>c\<in>set rest. \<not> isspace c"
  shows "item_tail ind a b l (sp @ text @ ''...'' @ rest) =
           Some \<lparr>indent = ind, num1 = a, num2 = b, letter = l, content = text,
                 action_grp = Some (dropWhile isspace rest)\<rparr>"
proof -
  let ?R = "\<lparr>indent = ind, num1 = a, num2 = b, letter = l, content = text,
             action_grp = Some (dropWhile isspace rest)\<rparr>"
  let ?K4 = "\<lambda>cont a' r5. at_eol r5 \<lparr>indent = ind, num1 = a, num2 = b, letter = l,
                                      content = cont, action_grp = Some a'\<rparr>"
  let ?K3 = "\<lambda>cont (u::string) r4. plus not_newline r4 (?K4 cont)"
  let ?K2 = "\<lambda>cont r2. orelse (lit ''...'' r2 (\<lambda>r3. star isspace [] r3 (?K3 cont)))
                (at_eol r2 \<lparr>indent = ind, num1 = a, num2 = b, letter = l,
                            content = cont, action_grp = None\<rparr>)"
  let ?act = "dropWhile isspace rest"
  from rest(2) have act_ne: "?act \<noteq> []" by (simp add: dropWhile_eq_Nil_conv)
  then have act_hd: "\<not> isspace (hd ?act)" by (rule hd_dropWhile)
  have act_nl: "\<forall>c\<in>set ?act. not_newline c"
    using rest(1) by (meson in_mono set_dropWhileD subsetI)
  have "plus not_newline (?act @ []) (?K4 text) = Some ?R"
    by (rule plus_longest) (use act_ne act_nl in auto)
  then have k3: "?K3 text ([] @ takeWhile isspace rest) ?act = Some ?R" by simp
  have "star isspace [] (takeWhile isspace rest @ ?act) (?K3 text) = Some ?R"
  proof (rule star_longest [where acc = "[]" and xs = "takeWhile isspace rest" and ys = ?act
        and k = "?K3 text" and p = isspace and r = ?R])
    show "\<forall>c\<in>set (takeWhile isspace rest). isspace c" by (auto dest: set_takeWhileD)
    show "?act = [] \<or> \<not> isspace (hd ?act)" using act_hd by simp
    show "?K3 text ([] @ takeWhile isspace rest) ?act = Some ?R" by (rule k3)
  qed
  then have k2: "?K2 ([] @ text) (''...'' @ rest) = Some ?R"
    by (simp add: lit_def)
  have lazy: "plus_lazy not_newline [] (text @ ''...'' @ rest) ?K2 = Some ?R"
  proof (rule plus_lazy_first [where acc = "[]" and xs = "text" and ys = "''...'' @ rest"
        and k = ?K2 and p = not_newline and r = ?R])
    show "text \<noteq> []" by (rule tx(1))
    show "?K2 ([] @ text) (''...'' @ rest) = Some ?R" by (rule k2)
    show "\<forall>c\<in>set text. not_newline c" using tx(3) by blast
    show "\<forall>n. 0 < n \<and> n < length text \<longrightarrow>
            ?K2 ([] @ take n text) (drop n text @ ''...'' @ rest) = None"
    proof (intro allI impI)
      fix n assume "0 < n \<and> n < length text"
      then obtain c cs where d: "drop n text = c # cs" by (cases "drop n text") auto
      then have "c \<in> set text" by (metis in_set_dropD list.set_intros(1))
      with tx(3) have c: "c \<noteq> CHR ''.''" by blast
      have "\<not> eol (c # cs @ ''...'' @ rest)" by (simp add: eol_def)
      with c d show "?K2 ([] @ take n text) (drop n text @ ''...'' @ rest) = None"
        by (simp add: lit_fail at_eol_def)
    qed
  qed
  have "plus isspace (sp @ text @ ''...'' @ rest)
          (\<lambda>u r1. plus_lazy not_newline [] r1 ?K2) = Some ?R"
    by (rule plus_longest [OF sp]) (use tx lazy in auto)
  then show ?thesis by (simp add: item_tail_def)
qed

lemma set_dropWhile_keeps: "c \<in> set s \<Longrightarrow> \<not> P c \<Longrightarrow> c \<in> set (dropWhile P s)"
  by (induction s) auto

lemma strip_keeps: "c \<in> set s \<Longrightarrow> \<not> isspace c \<Longrightarrow> c \<in> set (strip s)"
  by (simp add: strip_def rstrip_def lstrip_def set_dropWhile_keeps)

lemma strip_subset: "set (strip s) \<subseteq> set s"
  by (auto simp: strip_def rstrip_def lstrip_def dest!: set_dropWhileD)

lemma merge_line_action:
  "merge_line next_line ins act = (ins', act') \<Longrightarrow> act \<noteq> [] \<Longrightarrow> prefix act act'"
  by (auto simp: merge_line_def Let_def split: if_splits)

lemma merge_continuations_action:
  "merge_continuations lines j i ins act = (j', i', ins', act') \<Longrightarrow> act \<noteq> [] \<Longrightarrow> prefix act act'"
proof (induction lines j i ins act rule: merge_continuations.induct)
  case (1 lines j i ins act)
  show ?case
  proof (cases "j < length lines")
    case False
    with "1.prems" show ?thesis by (simp add: merge_continuations.simps)
  next
    case True
    note in_range = this
    show ?thesis
    proof (cases "rstrip (lines ! j) = []")
      case True
      with in_range "1.prems" "1.IH"(1) show ?thesis
        by (simp add: merge_continuations.simps [of lines j])
    next
      case False
      note non_blank = this
      show ?thesis
      proof (cases "starts_new_pattern (rstrip (lines ! j))")
        case True
        with in_range non_blank "1.prems" show ?thesis
          by (simp add: merge_continuations.simps [of lines j])
      next
        case False
        obtain a b where ab: "merge_line (rstrip (lines ! j)) ins act = (a, b)"
          by (cases "merge_line (rstrip (lines ! j)) ins act")
        from merge_line_action [OF ab "1.prems"(2)] have pb: "prefix act b" .
        with "1.prems"(2) have "b \<noteq> []" by auto
        from in_range non_blank False ab "1.prems"
        have "merge_continuations lines (j + 1) (i + 1) a b = (j', i', ins', act')"
          by (simp add: merge_continuations.simps [of lines j])
        with "1.IH"(2) in_range non_blank False ab \<open>b \<noteq> []\<close> have "prefix b act'"
          by simp
        with pb show ?thesis by (rule prefix_order.trans)
      qed
    qed
  qed
qed

lemma code_dot: "code c = 46 \<longleftrightarrow> c = CHR ''.''"
proof -
  have "(of_char (CHR ''.'') :: nat) = 46" by simp
  then have "code c = 46 \<longleftrightarrow> (of_char c :: nat) = of_char (CHR ''.'')"
    by (simp add: code_def)
  then show ?thesis by (simp only: of_char_eq_iff)
qed

lemma build_step_parts:
  assumes "build_step lines i m uid = (i', s)"
  shows "\<exists>j ins act1.
     merge_continuations lines i i (strip (content m))
       (case action_grp m of None \<Rightarrow> [] | Some a \<Rightarrow> if a \<noteq> [] then strip a else [])
       = (j, i', ins, act1) \<and>
     instruction s = ins \<and>
     action s = (if act1 \<noteq> [] then strip (remove_dots act1) else act1) \<and>
     step_id s = uid \<and>
     step_number s =
       (if truthy (num1 m) then num1 m
        else if truthy (num2 m) then map_option (\<lambda>n. ''('' @ n @ '')'') (num2 m)
        else if truthy (letter m) then letter m
        else None) \<and>
     indent_level s =
       (if truthy (num1 m) then 0
        else if truthy (num2 m) then 2
        else if truthy (letter m) then 1
        else if indent m \<noteq> [] then int (length (indent m) div 2) else 0)"
proof -
  let ?act0 = "case action_grp m of None \<Rightarrow> [] | Some a \<Rightarrow> if a \<noteq> [] then strip a else []"
  obtain j i2 ins act1 where
    mc: "merge_continuations lines i i (strip (content m)) ?act0 = (j, i2, ins, act1)"
    by (rule prod_cases4)
  show ?thesis
  proof (cases "truthy (num1 m)")
    case True
    with assms mc show ?thesis by (auto simp: build_step_def Let_def)
  next
    case n1: False
    show ?thesis
    proof (cases "truthy (num2 m)")
      case True
      with n1 assms mc show ?thesis by (auto simp: build_step_def Let_def)
    next
      case n2: False
      show ?thesis
      proof (cases "truthy (letter m)")
        case True
        with n1 n2 assms mc show ?thesis by (auto simp: build_step_def Let_def)
      next
        case False
        with n1 n2 assms mc show ?thesis by (auto simp: build_step_def Let_def)
      qed
    qed
  qed
qed

lemma build_step_no_dots:
  assumes "build_step lines i m uid = (i', s)"
  shows "CHR ''.'' \<notin> set (action s)"
proof -
  from build_step_parts [OF assms] obtain act1 where
    a: "action s = (if act1 \<noteq> [] then strip (remove_dots act1) else act1)" by blast
  have "CHR ''.'' \<notin> set (remove_dots act1)" by (simp add: remove_dots_def code_dot)
  with strip_subset [of "remove_dots act1"] a show ?thesis by (auto split: if_splits)
qed

lemma build_step_action_kept:
  assumes "build_step lines i m uid = (i', s)" and "action_grp m = Some a"
    and "c \<in> set a" and "\<not> isspace c" and "c \<noteq> CHR ''.''"
  shows "c \<in> set (action s)"
proof -
  from assms(3) have "a \<noteq> []" by auto
  from build_step_parts [OF assms(1)] assms(2) \<open>a \<noteq> []\<close> obtain j ins act1 where
    mc: "merge_continuations lines i i (strip (content m)) (strip a) = (j, i', ins, act1)"
    and act: "action s = (if act1 \<noteq> [] then strip (remove_dots act1) else act1)"
    by auto
  from strip_keeps [OF assms(3,4)] have c0: "c \<in> set (strip a)" .
  then have "strip a \<noteq> []" by auto
  from merge_continuations_action [OF mc this] c0 have c1: "c \<in> set act1"
    by (auto simp: prefix_def)
  from assms(5) have "code c \<noteq> 46" by (simp add: code_dot)
  with c1 have "c \<in> set (remove_dots act1)" by (simp add: remove_dots_def)
  from strip_keeps [OF this assms(4)] c1 act show ?thesis by auto
qed

lemma item_numbering_start:
  "item_numbering ind r = Some m \<Longrightarrow>
     r \<noteq> [] \<and> (is_digit (hd r) \<or> hd r = CHR ''('' \<or> is_lower (hd r))"
  unfolding item_numbering_def
  by (auto dest!: orelse_Some plus_Some lit_Some cls_Some)

lemma item_pattern_start:
  assumes "item_pattern line = Some m"
  shows "line \<noteq> [] \<and>
         (isspace (hd line) \<or> is_digit (hd line) \<or> hd line = CHR ''('' \<or> is_lower (hd line))"
proof -
  from assms obtain xs ys where
    l: "line = xs @ ys" "\<forall>c\<in>set xs. isspace c" "item_numbering ([] @ xs) ys = Some m"
    unfolding item_pattern_numbering by (blast dest: star_Some)
  from item_numbering_start [OF l(3)] l(1,2) show ?thesis
    by (cases xs) auto
qed

lemma step_start_not_others:
  "isspace c \<or> is_digit c \<or> c = CHR ''('' \<or> is_lower c \<Longrightarrow>
     c \<noteq> CHR ''#'' \<and> c \<noteq> CHR ''P'' \<and> \<not> is_upper c"
  by (auto simp: isspace_def is_digit_def is_lower_def is_upper_def code_def)

lemma item_line_only_item:
  assumes "item_pattern line = Some m"
  shows "line \<noteq> [] \<and> section_pattern line = None \<and> subsection_pattern line = None \<and>
         checklist_pattern line = None \<and> pfd_alert_pattern line = None \<and>
         cas_message_line_pattern line = None"
proof -
  from item_pattern_start [OF assms] obtain c cs where
    l: "line = c # cs" "isspace c \<or> is_digit c \<or> c = CHR ''('' \<or> is_lower c"
    by (cases line) auto
  from step_start_not_others [OF l(2)] l(1) show ?thesis
    by (simp add: section_pattern_def subsection_pattern_def checklist_pattern_def
        pfd_alert_pattern_def cas_message_line_pattern_def lit_fail cls_fail)
qed

lemma scan_line_step:
  assumes "item_pattern (rstrip (lines ! i)) = Some m" and "current_checklist st = Some cl"
  shows "scan_line lines i st =
           step_handler lines (i + 1) m cl (st\<lparr>line_count := line_count st + 1\<rparr>)"
  using item_line_only_item [OF assms(1)] assms
  by (simp add: scan_line_def Let_def cas_classified_def)

section \<open>Step numbering and the action\<close>

lemma item_pattern_digits_line:
  assumes "\<forall>c\<in>set ws. isspace c" and "n \<noteq> []" and "\<forall>c\<in>set n. is_digit c"
  shows "item_pattern (ws @ n @ ''.'' @ r) = item_tail ws (Some n) None None r"
proof -
  from assms(2,3) have "n @ ''.'' @ r \<noteq> []" "\<not> isspace (hd (n @ ''.'' @ r))"
    using digit_not_others [of "hd n"] by (cases n; simp)+
  from item_pattern_indent [OF assms(1) this] item_numbering_digits [OF assms(2,3)]
  show ?thesis by simp
qed

lemma item_pattern_paren_line:
  assumes "\<forall>c\<in>set ws. isspace c" and "n \<noteq> []" and "\<forall>c\<in>set n. is_digit c"
  shows "item_pattern (ws @ ''('' @ n @ '')'' @ r) = item_tail ws None (Some n) None r"
proof -
  have "''('' @ n @ '')'' @ r \<noteq> []" "\<not> isspace (hd (''('' @ n @ '')'' @ r))"
    using paren_not_others by simp_all
  from item_pattern_indent [OF assms(1) this] item_numbering_paren [OF assms(2,3)]
  show ?thesis by simp
qed

lemma item_pattern_letter_line:
  assumes "\<forall>c\<in>set ws. isspace c" and "is_lower c"
  shows "item_pattern (ws @ [c] @ ''.'' @ r) = item_tail ws None None (Some [c]) r"
proof -
  have "[c] @ ''.'' @ r \<noteq> []" "\<not> isspace (hd ([c] @ ''.'' @ r))"
    using lower_not_others [OF assms(2)] by simp_all
  from item_pattern_indent [OF assms(1) this] item_numbering_letter [OF assms(2)]
  show ?thesis by simp
qed

lemma scan_line_build_step:
  assumes "item_pattern (rstrip (lines ! i)) = Some m" and "current_checklist st = Some cl"
    and "build_step lines (i + 1) m (next_uuid st) = (i', s)"
  shows "scan_line lines i st =
           (i', st\<lparr>line_count := line_count st + 1,
                    current_checklist := Some (add_step_to_hierarchy cl s (indent_level s)),
                    next_uuid := next_uuid st + 1\<rparr>)"
  using assms(3) by (simp add: scan_line_step [OF assms(1,2)] step_handler_def)

text \<open>
  C6. A step line read while a checklist is open goes to the step branch, and the step it
  adds has its level from the numbering, whatever white space \<open>ws\<close> the line starts with:
  digits and a dot give level 0 and the digits as step number, digits in parentheses level
  2, one small letter and a dot level 1; its action holds no dot. A line
  \<^verbatim>\<open>N. text ... ACTION\<close> (digits \<open>n\<close>, a dot, white space, a text without dots, three dots
  and a rest that holds a character other than a dot or white space) does match, and its
  step has the step number \<open>n\<close>, level 0 and an action that is not empty and holds no dot.
\<close>

theorem step_line_numbering_and_action:
  assumes "\<forall>c\<in>set ws. isspace c" and "n \<noteq> []" and "\<forall>c\<in>set n. is_digit c"
    and "current_checklist st = Some cl"
  shows
    "(item_pattern (rstrip (lines ! i)) = Some m \<and>
      build_step lines (i + 1) m (next_uuid st) = (i', s) \<longrightarrow>
        scan_line lines i st =
          (i', st\<lparr>line_count := line_count st + 1,
                   current_checklist := Some (add_step_to_hierarchy cl s (indent_level s)),
                   next_uuid := next_uuid st + 1\<rparr>) \<and>
        (rstrip (lines ! i) = ws @ n @ ''.'' @ r \<longrightarrow>
           indent_level s = 0 \<and> step_number s = Some n) \<and>
        (rstrip (lines ! i) = ws @ ''('' @ n @ '')'' @ r \<longrightarrow>
           indent_level s = 2 \<and> step_number s = Some (''('' @ n @ '')'')) \<and>
        (is_lower c \<and> rstrip (lines ! i) = ws @ [c] @ ''.'' @ r \<longrightarrow>
           indent_level s = 1 \<and> step_number s = Some [c]) \<and>
        CHR ''.'' \<notin> set (action s)) \<and>
     (rstrip (lines ! i) = ws @ n @ ''.'' @ sp @ text @ ''...'' @ rest \<and>
      sp \<noteq> [] \<and> (\<forall>c\<in>set sp. isspace c) \<and>
      text \<noteq> [] \<and> \<not> isspace (hd text) \<and> (\<forall>c\<in>set text. c \<noteq> CHR ''.'' \<and> not_newline c) \<and>
      (\<forall>c\<in>set rest. not_newline c) \<and> (\<exists>c\<in>set rest. \<not> isspace c \<and> c \<noteq> CHR ''.'') \<longrightarrow>
        (\<exists>m' j s'.
           item_pattern (rstrip (lines ! i)) = Some m' \<and>
           build_step lines (i + 1) m' (next_uuid st) = (j, s') \<and>
           scan_line lines i st =
             (j, st\<lparr>line_count := line_count st + 1,
                     current_checklist := Some (add_step_to_hierarchy cl s' (indent_level s')),
                     next_uuid := next_uuid st + 1\<rparr>) \<and>
           step_number s' = Some n \<and> indent_level s' = 0 \<and>
           action s' \<noteq> [] \<and> CHR ''.'' \<notin> set (action s')))"
proof -
  have A: "scan_line lines i st =
          (i', st\<lparr>line_count := line_count st + 1,
                   current_checklist := Some (add_step_to_hierarchy cl s (indent_level s)),
                   next_uuid := next_uuid st + 1\<rparr>) \<and>
        (rstrip (lines ! i) = ws @ n @ ''.'' @ r \<longrightarrow>
           indent_level s = 0 \<and> step_number s = Some n) \<and>
        (rstrip (lines ! i) = ws @ ''('' @ n @ '')'' @ r \<longrightarrow>
           indent_level s = 2 \<and> step_number s = Some (''('' @ n @ '')'')) \<and>
        (is_lower c \<and> rstrip (lines ! i) = ws @ [c] @ ''.'' @ r \<longrightarrow>
           indent_level s = 1 \<and> step_number s = Some [c]) \<and>
        CHR ''.'' \<notin> set (action s)"
    if m: "item_pattern (rstrip (lines ! i)) = Some m"
      and b: "build_step lines (i + 1) m (next_uuid st) = (i', s)"
  proof -
    have scan: "scan_line lines i st =
          (i', st\<lparr>line_count := line_count st + 1,
                   current_checklist := Some (add_step_to_hierarchy cl s (indent_level s)),
                   next_uuid := next_uuid st + 1\<rparr>)"
      by (rule scan_line_build_step [OF m assms(4) b])
    have dots: "CHR ''.'' \<notin> set (action s)" by (rule build_step_no_dots [OF b])
    have digits: "indent_level s = 0 \<and> step_number s = Some n"
      if "rstrip (lines ! i) = ws @ n @ ''.'' @ r"
    proof -
      from that m item_pattern_digits_line [OF assms(1-3), of r]
      have "item_tail ws (Some n) None None r = Some m" by simp
      from item_tail_groups [OF this] assms(2) have "num1 m = Some n" "truthy (num1 m)"
        by (simp_all add: truthy_def)
      with build_step_parts [OF b] show ?thesis by auto
    qed
    have paren: "indent_level s = 2 \<and> step_number s = Some (''('' @ n @ '')'')"
      if "rstrip (lines ! i) = ws @ ''('' @ n @ '')'' @ r"
    proof -
      from that m item_pattern_paren_line [OF assms(1-3), of r]
      have "item_tail ws None (Some n) None r = Some m" by simp
      from item_tail_groups [OF this] assms(2)
      have "num1 m = None" "num2 m = Some n" "\<not> truthy (num1 m)" "truthy (num2 m)"
        by (simp_all add: truthy_def)
      with build_step_parts [OF b] show ?thesis by auto
    qed
    have small: "indent_level s = 1 \<and> step_number s = Some [c]"
      if "is_lower c" "rstrip (lines ! i) = ws @ [c] @ ''.'' @ r"
    proof -
      from that m item_pattern_letter_line [OF assms(1), of c r]
      have "item_tail ws None None (Some [c]) r = Some m" by simp
      from item_tail_groups [OF this]
      have "\<not> truthy (num1 m)" "\<not> truthy (num2 m)" "truthy (letter m)" "letter m = Some [c]"
        by (simp_all add: truthy_def)
      with build_step_parts [OF b] show ?thesis by auto
    qed
    from scan dots digits paren small show ?thesis by blast
  qed
  have B: "\<exists>m' j s'.
           item_pattern (rstrip (lines ! i)) = Some m' \<and>
           build_step lines (i + 1) m' (next_uuid st) = (j, s') \<and>
           scan_line lines i st =
             (j, st\<lparr>line_count := line_count st + 1,
                     current_checklist := Some (add_step_to_hierarchy cl s' (indent_level s')),
                     next_uuid := next_uuid st + 1\<rparr>) \<and>
           step_number s' = Some n \<and> indent_level s' = 0 \<and>
           action s' \<noteq> [] \<and> CHR ''.'' \<notin> set (action s')"
    if wf: "rstrip (lines ! i) = ws @ n @ ''.'' @ sp @ text @ ''...'' @ rest \<and>
      sp \<noteq> [] \<and> (\<forall>c\<in>set sp. isspace c) \<and>
      text \<noteq> [] \<and> \<not> isspace (hd text) \<and> (\<forall>c\<in>set text. c \<noteq> CHR ''.'' \<and> not_newline c) \<and>
      (\<forall>c\<in>set rest. not_newline c) \<and> (\<exists>c\<in>set rest. \<not> isspace c \<and> c \<noteq> CHR ''.'')"
  proof -
    let ?m = "\<lparr>indent = ws, num1 = Some n, num2 = None, letter = None, content = text,
               action_grp = Some (dropWhile isspace rest)\<rparr>"
    from wf obtain g where g: "g \<in> set rest" "\<not> isspace g" "g \<noteq> CHR ''.''" by blast
    from wf g have "item_tail ws (Some n) None None (sp @ text @ ''...'' @ rest) = Some ?m"
      by (intro item_tail_well_formed) auto
    with wf item_pattern_digits_line [OF assms(1-3), of "sp @ text @ ''...'' @ rest"]
    have m: "item_pattern (rstrip (lines ! i)) = Some ?m" by simp
    obtain j s' where b: "build_step lines (i + 1) ?m (next_uuid st) = (j, s')"
      by (cases "build_step lines (i + 1) ?m (next_uuid st)")
    from g have "g \<in> set (dropWhile isspace rest)" by (simp add: set_dropWhile_keeps)
    from build_step_action_kept [OF b _ this g(2,3)] have "action s' \<noteq> []" by auto
    moreover from build_step_parts [OF b] assms(2)
    have "step_number s' = Some n" "indent_level s' = 0" by (auto simp: truthy_def)
    moreover note build_step_no_dots [OF b] scan_line_build_step [OF m assms(4) b] m b
    ultimately show ?thesis by blast
  qed
  from A B show ?thesis by blast
qed

theorem step_line_numbering_and_action_witness:
  "(\<exists>m' j s'.
      item_pattern (rstrip ([''  1. Fuel Selector ........ OFF''] ! 0)) = Some m' \<and>
      build_step [''  1. Fuel Selector ........ OFF''] (0 + 1) m' 0 = (j, s') \<and>
      step_number s' = Some ''1'' \<and> indent_level s' = 0 \<and>
      action s' \<noteq> [] \<and> CHR ''.'' \<notin> set (action s')) \<and>
   indent_level (ChecklistStep 0 ''Mixture'' ''IDLE CUTOFF'' False 1 (Some ''a'') []) = 1 \<and>
   build_step [''    a. Mixture ... IDLE CUTOFF''] (0 + 1)
     \<lparr>indent = ''    '', num1 = None, num2 = None, letter = Some ''a'',
      content = ''Mixture '', action_grp = Some ''IDLE CUTOFF''\<rparr> 0
     = (1, ChecklistStep 0 ''Mixture'' ''IDLE CUTOFF'' False 1 (Some ''a'') [])"
proof -
  let ?C = "\<lparr>cl_id = 7, title = ''ENGINE FIRE'', cl_section = ''EMERGENCY'',
            cl_subsection = None, cas = None, cas_type = None, cas_description = None,
            alert_message = None, steps = []\<rparr>"
  let ?st = "initial_state\<lparr>current_checklist := Some ?C\<rparr>"
  let ?L = "[''  1. Fuel Selector ........ OFF'']"
  let ?M = "[''    a. Mixture ... IDLE CUTOFF'']"
  let ?m = "\<lparr>indent = ''    '', num1 = None, num2 = None, letter = Some ''a'',
            content = ''Mixture '', action_grp = Some ''IDLE CUTOFF''\<rparr>"
  let ?s = "ChecklistStep 0 ''Mixture'' ''IDLE CUTOFF'' False 1 (Some ''a'') []"
  have ws2: "\<forall>c\<in>set ''  ''. isspace c" by (simp add: isspace_def code_def)
  have ws4: "\<forall>c\<in>set ''    ''. isspace c" by (simp add: isspace_def code_def)
  have n: "''1'' \<noteq> []" "\<forall>c\<in>set ''1''. is_digit c" by (simp_all add: is_digit_def code_def)
  have cl: "current_checklist ?st = Some ?C" by simp
  have uid: "next_uuid ?st = 0" by (simp add: initial_state_def)
  have line: "rstrip (?L ! 0) = ''  '' @ ''1'' @ ''.'' @ '' '' @ ''Fuel Selector '' @ ''...'' @ ''..... OFF''"
    by code_simp
  have wf: "'' '' \<noteq> [] \<and> (\<forall>c\<in>set '' ''. isspace c) \<and>
      ''Fuel Selector '' \<noteq> [] \<and> \<not> isspace (hd ''Fuel Selector '') \<and>
      (\<forall>c\<in>set ''Fuel Selector ''. c \<noteq> CHR ''.'' \<and> not_newline c) \<and>
      (\<forall>c\<in>set ''..... OFF''. not_newline c) \<and>
      (\<exists>c\<in>set ''..... OFF''. \<not> isspace c \<and> c \<noteq> CHR ''.'')"
    by (simp add: isspace_def not_newline_def code_def)
  from step_line_numbering_and_action [OF ws2 n cl, THEN conjunct2,
      of ?L 0 "'' ''" "''Fuel Selector ''" "''..... OFF''"] line wf uid
  have first: "\<exists>m' j s'.
      item_pattern (rstrip (?L ! 0)) = Some m' \<and>
      build_step ?L (0 + 1) m' 0 = (j, s') \<and>
      step_number s' = Some ''1'' \<and> indent_level s' = 0 \<and>
      action s' \<noteq> [] \<and> CHR ''.'' \<notin> set (action s')"
    by auto
  have m: "item_pattern (rstrip (?M ! 0)) = Some ?m" by code_simp
  have b: "build_step ?M (0 + 1) ?m 0 = (1, ?s)" by code_simp
  have low: "is_lower (CHR ''a'')" by (simp add: is_lower_def code_def)
  have shape: "rstrip (?M ! 0) = ''    '' @ [CHR ''a''] @ ''.'' @ '' Mixture ... IDLE CUTOFF''"
    by code_simp
  from step_line_numbering_and_action [OF ws4 n cl, THEN conjunct1,
      of ?M 0 ?m 1 ?s "'' Mixture ... IDLE CUTOFF''" "CHR ''a''"] m b uid low shape
  have "indent_level ?s = 1" by simp
  with first b show ?thesis by simp
qed

end
